theory Spec2Isabelle
  imports Complex_Main "HOL-Library.Monad_Syntax"
begin

section \<open>JavaScript numbers\<close>

text \<open>
  The detector computes with JavaScript numbers. A number is modelled as a finite real,
  one of the two infinities, the negative zero or NaN; \<open>Fin 0\<close> is the positive zero.
  Finite results are exact: the rounding of IEEE doubles, overflow to an infinity and
  underflow are not modelled. Division by zero, the sign of a zero, the infinities and
  NaN follow IEEE 754, since the code divides by block and rectangle areas that can be
  zero. A read of \<open>undefined\<close> (a typed array read outside its range) is the value NaN:
  every use of such a read in the code is arithmetic, a comparison or a truth test, and
  each converts \<open>undefined\<close> to NaN.
\<close>

datatype jsnum = NaN | PInf | NInf | NZero | Fin real

definition is_zero :: "jsnum \<Rightarrow> bool" where
  "is_zero a = (a = NZero \<or> a = Fin 0)"

definition is_inf :: "jsnum \<Rightarrow> bool" where
  "is_inf a = (a = PInf \<or> a = NInf)"

fun sign_neg :: "jsnum \<Rightarrow> bool" where
  "sign_neg NInf = True"
| "sign_neg NZero = True"
| "sign_neg (Fin r) = (r < 0)"
| "sign_neg PInf = False"
| "sign_neg NaN = False"

fun val :: "jsnum \<Rightarrow> real" where
  "val (Fin r) = r"
| "val NaN = 0"
| "val PInf = 0"
| "val NInf = 0"
| "val NZero = 0"

definition zero_of :: "bool \<Rightarrow> jsnum" where
  "zero_of neg = (if neg then NZero else Fin 0)"

definition inf_of :: "bool \<Rightarrow> jsnum" where
  "inf_of neg = (if neg then NInf else PInf)"

definition fin_of :: "bool \<Rightarrow> real \<Rightarrow> jsnum" where
  "fin_of neg r = (if r = 0 then zero_of neg else Fin r)"

text \<open>An integer-valued JavaScript number (a loop counter, an \<open>Int32Array\<close> cell).\<close>

definition Num :: "int \<Rightarrow> jsnum" where
  "Num k = Fin (of_int k)"

fun js_neg :: "jsnum \<Rightarrow> jsnum" where
  "js_neg NaN = NaN"
| "js_neg PInf = NInf"
| "js_neg NInf = PInf"
| "js_neg NZero = Fin 0"
| "js_neg (Fin r) = (if r = 0 then NZero else Fin (- r))"

definition js_mul :: "jsnum \<Rightarrow> jsnum \<Rightarrow> jsnum" where
  "js_mul a b =
     (if a = NaN \<or> b = NaN then NaN
      else if (is_zero a \<and> is_inf b) \<or> (is_inf a \<and> is_zero b) then NaN
      else if is_inf a \<or> is_inf b then inf_of (sign_neg a \<noteq> sign_neg b)
      else fin_of (sign_neg a \<noteq> sign_neg b) (val a * val b))"

definition js_div :: "jsnum \<Rightarrow> jsnum \<Rightarrow> jsnum" where
  "js_div a b =
     (if a = NaN \<or> b = NaN then NaN
      else if (is_zero a \<and> is_zero b) \<or> (is_inf a \<and> is_inf b) then NaN
      else if is_inf a \<or> is_zero b then inf_of (sign_neg a \<noteq> sign_neg b)
      else if is_inf b then zero_of (sign_neg a \<noteq> sign_neg b)
      else fin_of (sign_neg a \<noteq> sign_neg b) (val a / val b))"

definition js_add :: "jsnum \<Rightarrow> jsnum \<Rightarrow> jsnum" where
  "js_add a b =
     (if a = NaN \<or> b = NaN then NaN
      else if is_inf a then (if is_inf b \<and> a \<noteq> b then NaN else a)
      else if is_inf b then b
      else fin_of (a = NZero \<and> b = NZero) (val a + val b))"

definition js_sub :: "jsnum \<Rightarrow> jsnum \<Rightarrow> jsnum" where
  "js_sub a b = js_add a (js_neg b)"

text \<open>
  The comparisons \<open>a < b\<close>, \<open>a > b\<close>, \<open>a <= b\<close> and \<open>a >= b\<close>: false as soon as one side is
  NaN.
\<close>

definition js_lt :: "jsnum \<Rightarrow> jsnum \<Rightarrow> bool" where
  "js_lt a b =
     (if a = NaN \<or> b = NaN then False
      else if a = PInf \<or> b = NInf then False
      else if a = NInf \<or> b = PInf then True
      else val a < val b)"

definition js_gt :: "jsnum \<Rightarrow> jsnum \<Rightarrow> bool" where
  "js_gt a b = js_lt b a"

definition js_le :: "jsnum \<Rightarrow> jsnum \<Rightarrow> bool" where
  "js_le a b = (a \<noteq> NaN \<and> b \<noteq> NaN \<and> \<not> js_lt b a)"

definition js_ge :: "jsnum \<Rightarrow> jsnum \<Rightarrow> bool" where
  "js_ge a b = (a \<noteq> NaN \<and> b \<noteq> NaN \<and> \<not> js_lt a b)"

text \<open>\<open>Math.sqrt\<close>.\<close>

fun js_sqrt :: "jsnum \<Rightarrow> jsnum" where
  "js_sqrt NaN = NaN"
| "js_sqrt PInf = PInf"
| "js_sqrt NInf = NaN"
| "js_sqrt NZero = NZero"
| "js_sqrt (Fin r) = (if r < 0 then NaN else Fin (sqrt r))"

text \<open>The truth test of \<open>if (x)\<close> and \<open>while (x)\<close> on a number: false for NaN and the zeros.\<close>

definition truthy :: "jsnum \<Rightarrow> bool" where
  "truthy a = (a \<noteq> NaN \<and> \<not> is_zero a)"

text \<open>
  \<open>x | 0\<close> is ToInt32: NaN, the infinities and the zeros give 0; a finite number is
  truncated toward zero and wrapped into the signed 32-bit range.
\<close>

definition trunc :: "real \<Rightarrow> int" where
  "trunc r = (if 0 \<le> r then \<lfloor>r\<rfloor> else \<lceil>r\<rceil>)"

definition wrap32 :: "int \<Rightarrow> int" where
  "wrap32 t = (t + 2147483648) mod 4294967296 - 2147483648"

fun to_int32 :: "jsnum \<Rightarrow> int" where
  "to_int32 (Fin r) = wrap32 (trunc r)"
| "to_int32 NaN = 0"
| "to_int32 PInf = 0"
| "to_int32 NInf = 0"
| "to_int32 NZero = 0"

text \<open>A read \<open>a[k]\<close> of a \<open>Float64Array\<close> and of an \<open>Int32Array\<close>, as a number.\<close>

definition f64_get :: "jsnum list \<Rightarrow> nat \<Rightarrow> jsnum" where
  "f64_get a k = (if k < length a then a ! k else NaN)"

definition i32_get :: "int list \<Rightarrow> int \<Rightarrow> jsnum" where
  "i32_get a k = (if 0 \<le> k \<and> nat k < length a then Num (a ! nat k) else NaN)"

section \<open>DisjointSet\<close>

text \<open>
  The class holds \<open>length\<close> and \<open>parent\<close>, a \<open>Uint32Array\<close>: a store into it keeps the
  value modulo \<open>2^32\<close>, and a store of \<open>undefined\<close> keeps 0. The constructor is modelled
  for a number argument (its \<open>length === undefined\<close> check throws only when the argument
  is missing).
\<close>

record DisjointSet =
  ds_length :: nat
  parent :: "nat list"

definition to_uint32 :: "nat option \<Rightarrow> nat" where
  "to_uint32 v = (case v of None \<Rightarrow> 0 | Some k \<Rightarrow> k mod 4294967296)"

definition new_DisjointSet :: "nat \<Rightarrow> DisjointSet" where
  "new_DisjointSet n = \<lparr>ds_length = n, parent = map (\<lambda>i. i mod 4294967296) [0..<n]\<rparr>"

text \<open>
  \<open>find\<close> is recursive and compresses the path on the way back, so it returns the
  representative with the new state; it does not return when the parent cells form a
  cycle, which is the value \<open>None\<close>. This is the method on a call stack without limit;
  \<open>find_stack\<close> below has the limit. For an index outside the array the read is
  \<open>undefined\<close>: it differs from \<open>i\<close>, \<open>find(undefined)\<close> reads \<open>undefined\<close> again, which
  now equals its argument, and the store into the missing cell does nothing, so the
  result is \<open>undefined\<close> (the inner \<open>None\<close>) and the state is unchanged. The assignment
  expression returns the value found, not the stored one.
\<close>

partial_function (option) find_ds :: "DisjointSet \<Rightarrow> nat \<Rightarrow> (nat option \<times> DisjointSet) option" where
  "find_ds s i =
     (if i < length (parent s) then
        (if parent s ! i = i then Some (Some i, s)
         else do {
           (r, s') \<leftarrow> find_ds s (parent s ! i);
           Some (r, s'\<lparr>parent := (parent s')[i := to_uint32 r]\<rparr>)
         })
      else Some (None, s))"

declare find_ds.simps [code]

text \<open>
  \<open>union\<close>: two finds, then the store \<open>parent[iRepresentative] = jRepresentative\<close>. A store
  at \<open>undefined\<close> or outside the array leaves every cell as it is.
\<close>

definition store_parent :: "DisjointSet \<Rightarrow> nat option \<Rightarrow> nat option \<Rightarrow> DisjointSet" where
  "store_parent s k v =
     (case k of
        None \<Rightarrow> s
      | Some r \<Rightarrow> if r < length (parent s) then s\<lparr>parent := (parent s)[r := to_uint32 v]\<rparr> else s)"

definition union_ds :: "DisjointSet \<Rightarrow> nat \<Rightarrow> nat \<Rightarrow> DisjointSet option" where
  "union_ds s i j =
     do {
       (iRepresentative, s1) \<leftarrow> find_ds s i;
       (jRepresentative, s2) \<leftarrow> find_ds s1 j;
       Some (store_parent s2 iRepresentative jRepresentative)
     }"

text \<open>A sequence of \<open>union\<close> calls, and a sequence of \<open>find\<close> calls, on one set.\<close>

fun unions :: "DisjointSet \<Rightarrow> (nat \<times> nat) list \<Rightarrow> DisjointSet option" where
  "unions s [] = Some s"
| "unions s (c # cs) = (case union_ds s (fst c) (snd c) of None \<Rightarrow> None | Some s' \<Rightarrow> unions s' cs)"

fun finds :: "DisjointSet \<Rightarrow> nat list \<Rightarrow> DisjointSet option" where
  "finds s [] = Some s"
| "finds s (k # ks) = (case find_ds s k of None \<Rightarrow> None | Some (r, s') \<Rightarrow> finds s' ks)"

text \<open>The test \<open>find(i) == find(j)\<close>: both calls run, the second on the state the first left.\<close>

definition same_rep :: "DisjointSet \<Rightarrow> nat \<Rightarrow> nat \<Rightarrow> bool option" where
  "same_rep s i j =
     do {
       (ri, s1) \<leftarrow> find_ds s i;
       (rj, s2) \<leftarrow> find_ds s1 j;
       Some (ri = rj)
     }"


text \<open>
  The parent cells as a forest: \<open>rooted p i r\<close> when following the parent cells from \<open>i\<close>
  ends in the cell \<open>r\<close> that is its own parent.
\<close>

inductive rooted :: "nat list \<Rightarrow> nat \<Rightarrow> nat \<Rightarrow> bool" for p :: "nat list" where
  rooted_self: "i < length p \<Longrightarrow> p ! i = i \<Longrightarrow> rooted p i i"
| rooted_up: "i < length p \<Longrightarrow> p ! i \<noteq> i \<Longrightarrow> rooted p (p ! i) r \<Longrightarrow> rooted p i r"

definition small :: "nat list \<Rightarrow> bool" where
  "small p = list_all (\<lambda>v. v < 4294967296) p"

definition forest :: "DisjointSet \<Rightarrow> bool" where
  "forest s =
     (length (parent s) = ds_length s \<and> small (parent s) \<and>
      (\<forall>i. i < ds_length s \<longrightarrow> (\<exists>r. rooted (parent s) i r)))"

text \<open>The pairs connected by the reflexive, symmetric, transitive closure of the calls.\<close>

definition connected :: "(nat \<times> nat) list \<Rightarrow> (nat \<times> nat) set" where
  "connected cs = (set cs \<union> (set cs)\<inverse>)\<^sup>*"

text \<open>
  The errors: a \<open>RangeError\<close> is thrown by the engine when the call stack is exhausted and
  by \<open>detect\<close> below, a \<open>TypeError\<close> by the grouping loop of the merger;
  \<open>MalformedCascadeError\<close> is the error the specification names, which no code path
  throws.
\<close>

datatype error = TypeError | RangeError | MalformedCascadeError

text \<open>
  \<open>find\<close> is recursive: a call on a parent chain of \<open>d\<close> links nests \<open>d + 1\<close> calls, and
  the engine throws a RangeError when the call stack is exhausted. \<open>find_stack frames\<close> is
  the same method on a call stack with room for \<open>frames\<close> more calls. The stores of the
  path compression happen on the way back, so a call that throws has stored nothing. For
  an index outside the array the second call, \<open>find(undefined)\<close>, needs a frame as well.
  \<open>find_ds\<close> above is the method on an unbounded stack: it gives the result of every call
  that returns (lemma \<open>find_stack_ds\<close>).
\<close>

fun find_stack :: "nat \<Rightarrow> DisjointSet \<Rightarrow> nat \<Rightarrow> error + (nat option \<times> DisjointSet)" where
  "find_stack 0 s i = Inl RangeError"
| "find_stack (Suc frames) s i =
     (if i < length (parent s) then
        (if parent s ! i = i then Inr (Some i, s)
         else
           (case find_stack frames s (parent s ! i) of
              Inl e \<Rightarrow> Inl e
            | Inr (r, s') \<Rightarrow> Inr (r, s'\<lparr>parent := (parent s')[i := to_uint32 r]\<rparr>)))
      else if frames = 0 then Inl RangeError else Inr (None, s))"

text \<open>\<open>union\<close> takes one frame itself and calls \<open>find\<close> twice.\<close>

fun union_stack :: "nat \<Rightarrow> DisjointSet \<Rightarrow> nat \<Rightarrow> nat \<Rightarrow> error + DisjointSet" where
  "union_stack 0 s i j = Inl RangeError"
| "union_stack (Suc frames) s i j =
     (case find_stack frames s i of
        Inl e \<Rightarrow> Inl e
      | Inr (iRepresentative, s1) \<Rightarrow>
          (case find_stack frames s1 j of
             Inl e \<Rightarrow> Inl e
           | Inr (jRepresentative, s2) \<Rightarrow> Inr (store_parent s2 iRepresentative jRepresentative)))"

text \<open>A sequence of \<open>union\<close> calls; an exception ends it.\<close>

fun unions_stack :: "nat \<Rightarrow> DisjointSet \<Rightarrow> (nat \<times> nat) list \<Rightarrow> error + DisjointSet" where
  "unions_stack frames s [] = Inr s"
| "unions_stack frames s (c # cs) =
     (case union_stack frames s (fst c) (snd c) of Inl e \<Rightarrow> Inl e | Inr s' \<Rightarrow> unions_stack frames s' cs)"

definition same_rep_stack :: "nat \<Rightarrow> DisjointSet \<Rightarrow> nat \<Rightarrow> nat \<Rightarrow> error + bool" where
  "same_rep_stack frames s i j =
     (case find_stack frames s i of
        Inl e \<Rightarrow> Inl e
      | Inr (ri, s1) \<Rightarrow>
          (case find_stack frames s1 j of Inl e \<Rightarrow> Inl e | Inr (rj, s2) \<Rightarrow> Inr (ri = rj)))"

text \<open>\<open>rooted_in p i r d\<close>: the parent chain from \<open>i\<close> ends in the root \<open>r\<close> after \<open>d\<close> links.\<close>

inductive rooted_in :: "nat list \<Rightarrow> nat \<Rightarrow> nat \<Rightarrow> nat \<Rightarrow> bool" for p :: "nat list" where
  rooted_in_self: "i < length p \<Longrightarrow> p ! i = i \<Longrightarrow> rooted_in p i i 0"
| rooted_in_up: "i < length p \<Longrightarrow> p ! i \<noteq> i \<Longrightarrow> rooted_in p (p ! i) r d \<Longrightarrow> rooted_in p i r (Suc d)"

text \<open>
  The calls \<open>union(0, 1), union(1, 2), ..., union(m - 1, m)\<close>, and the state they leave in
  a set of length \<open>n\<close>: each call links a root to a root, so no path is compressed and
  the cells form one chain of \<open>m\<close> links.
\<close>

definition chain :: "nat \<Rightarrow> (nat \<times> nat) list" where
  "chain m = map (\<lambda>k. (k, Suc k)) [0..<m]"

definition chained :: "nat \<Rightarrow> nat \<Rightarrow> DisjointSet" where
  "chained n m = \<lparr>ds_length = n, parent = map (\<lambda>i. if i < m then Suc i else i) [0..<n]\<rparr>"

section \<open>TrackingMath.intersectRect\<close>

definition intersectRect :: "int \<Rightarrow> int \<Rightarrow> int \<Rightarrow> int \<Rightarrow> int \<Rightarrow> int \<Rightarrow> int \<Rightarrow> int \<Rightarrow> bool" where
  "intersectRect x0 y0 x1 y1 x2 y2 x3 y3 = (\<not> (x2 > x1 \<or> x3 < x0 \<or> y2 > y1 \<or> y3 < y0))"

section \<open>ViolaJones.mergeRectangles\<close>

text \<open>
  The source names are \<open>mergeRectangles_\<close> and \<open>evalStages_\<close>; a name cannot end in an
  underscore here. A \<open>Rect\<close> of the detector has integer fields: the scanner builds it from loop counters
  and from block sizes that went through \<open>| 0\<close>.
\<close>

record Rect =
  rect_x :: int
  rect_y :: int
  rect_width :: int
  rect_height :: int
  rect_total :: int

definition REGIONS_OVERLAP :: jsnum where
  "REGIONS_OVERLAP = Fin (1 / 2)"

text \<open>The body of the two pair loops: the intersection test, the two ratios, the union.\<close>

definition merge_pair :: "Rect list \<Rightarrow> DisjointSet \<Rightarrow> nat \<Rightarrow> nat \<Rightarrow> DisjointSet option" where
  "merge_pair rects disjointSet i j =
     (let r1 = rects ! i; r2 = rects ! j in
      if intersectRect (rect_x r1) (rect_y r1) (rect_x r1 + rect_width r1) (rect_y r1 + rect_height r1)
           (rect_x r2) (rect_y r2) (rect_x r2 + rect_width r2) (rect_y r2 + rect_height r2)
      then
        (let x1 = max (rect_x r1) (rect_x r2);
             y1 = max (rect_y r1) (rect_y r2);
             x2 = min (rect_x r1 + rect_width r1) (rect_x r2 + rect_width r2);
             y2 = min (rect_y r1 + rect_height r1) (rect_y r2 + rect_height r2);
             overlap = js_mul (Num (x1 - x2)) (Num (y1 - y2));
             area1 = js_mul (Num (rect_width r1)) (Num (rect_height r1));
             area2 = js_mul (Num (rect_width r2)) (Num (rect_height r2))
         in if js_ge (js_div overlap (js_mul area1 (js_div area1 area2))) REGIONS_OVERLAP \<and>
               js_ge (js_div overlap (js_mul area2 (js_div area1 area2))) REGIONS_OVERLAP
            then union_ds disjointSet i j
            else Some disjointSet)
      else Some disjointSet)"

function merge_inner :: "Rect list \<Rightarrow> nat \<Rightarrow> nat \<Rightarrow> DisjointSet \<Rightarrow> DisjointSet option" where
  "merge_inner rects i j disjointSet =
     (if j < length rects then
        (case merge_pair rects disjointSet i j of
           None \<Rightarrow> None
         | Some ds' \<Rightarrow> merge_inner rects i (j + 1) ds')
      else Some disjointSet)"
  by pat_completeness auto
termination
  by (relation "measure (\<lambda>(rects, i, j, ds). length rects - j)") auto

function merge_outer :: "Rect list \<Rightarrow> nat \<Rightarrow> DisjointSet \<Rightarrow> DisjointSet option" where
  "merge_outer rects i disjointSet =
     (if i < length rects then
        (case merge_inner rects i 0 disjointSet of
           None \<Rightarrow> None
         | Some ds' \<Rightarrow> merge_outer rects (i + 1) ds')
      else Some disjointSet)"
  by pat_completeness auto
termination
  by (relation "measure (\<lambda>(rects, i, ds). length rects - i)") auto

text \<open>
  The grouping loop fills \<open>map\<close>, an object keyed by the representative. The key of an
  \<open>undefined\<close> representative is the property \<open>undefined\<close>, here the key \<open>None\<close>.
\<close>

definition group_add :: "(nat option \<rightharpoonup> Rect) \<Rightarrow> nat option \<Rightarrow> Rect \<Rightarrow> (nat option \<rightharpoonup> Rect)" where
  "group_add m rep rk =
     (case m rep of
        None \<Rightarrow> m(rep \<mapsto> \<lparr>rect_x = rect_x rk, rect_y = rect_y rk, rect_width = rect_width rk,
                            rect_height = rect_height rk, rect_total = 1\<rparr>)
      | Some g \<Rightarrow> m(rep \<mapsto> \<lparr>rect_x = rect_x g + rect_x rk, rect_y = rect_y g + rect_y rk,
                              rect_width = rect_width g + rect_width rk,
                              rect_height = rect_height g + rect_height rk,
                              rect_total = rect_total g + 1\<rparr>))"

function group_loop ::
  "Rect list \<Rightarrow> nat \<Rightarrow> nat \<Rightarrow> DisjointSet \<Rightarrow> (nat option \<rightharpoonup> Rect) \<Rightarrow> (nat option \<rightharpoonup> Rect) option" where
  "group_loop rects n k disjointSet m =
     (if k < n then
        (case find_ds disjointSet k of
           None \<Rightarrow> None
         | Some (rep, ds') \<Rightarrow> group_loop rects n (k + 1) ds' (group_add m rep (rects ! k)))
      else Some m)"
  by pat_completeness auto
termination
  by (relation "measure (\<lambda>(rects, n, k, ds, m). n - k)") auto

declare merge_inner.simps [simp del] merge_outer.simps [simp del] group_loop.simps [simp del]

text \<open>\<open>(v / total + 0.5) | 0\<close>, and the rectangle pushed for one group.\<close>

definition rounded_mean :: "int \<Rightarrow> int \<Rightarrow> int" where
  "rounded_mean v t = to_int32 (js_add (js_div (Num v) (Num t)) (Fin (1 / 2)))"

definition group_rect :: "Rect \<Rightarrow> Rect" where
  "group_rect g =
     \<lparr>rect_x = rounded_mean (rect_x g) (rect_total g),
      rect_y = rounded_mean (rect_y g) (rect_total g),
      rect_width = rounded_mean (rect_width g) (rect_total g),
      rect_height = rounded_mean (rect_height g) (rect_total g),
      rect_total = rect_total g\<rparr>"

text \<open>
  \<open>Object.keys(map)\<close> lists the integer keys in ascending order, then the key
  \<open>undefined\<close> if the object has it; for that key \<open>parseInt\<close> gives NaN, \<open>map[NaN]\<close> is
  \<open>undefined\<close> and reading its \<open>total\<close> throws a TypeError. \<open>disjointSet.length\<close> is read
  only, so the grouping loop takes it once.
\<close>

definition mergeRectangles :: "Rect list \<Rightarrow> (error + Rect list) option" where
  "mergeRectangles rects =
     (case merge_outer rects 0 (new_DisjointSet (length rects)) of
        None \<Rightarrow> None
      | Some disjointSet \<Rightarrow>
          (case group_loop rects (ds_length disjointSet) 0 disjointSet Map.empty of
             None \<Rightarrow> None
           | Some m \<Rightarrow>
               (case m None of
                  Some g \<Rightarrow> Some (Inl TypeError)
                | None \<Rightarrow>
                    Some (Inr (List.map_filter (\<lambda>k. map_option group_rect (m (Some k)))
                                 [0..<ds_length disjointSet])))))"

text \<open>
  The merge test in the words of the specification: the two boxes intersect (neither is
  strictly outside the other along an axis, so a touching boundary counts); the overlap
  is the area of the intersection; both ratios reach 0.5.
\<close>

definition boxes_intersect :: "Rect \<Rightarrow> Rect \<Rightarrow> bool" where
  "boxes_intersect r1 r2 =
     (rect_x r2 \<le> rect_x r1 + rect_width r1 \<and> rect_x r1 \<le> rect_x r2 + rect_width r2 \<and>
      rect_y r2 \<le> rect_y r1 + rect_height r1 \<and> rect_y r1 \<le> rect_y r2 + rect_height r2)"

definition intersection_area :: "Rect \<Rightarrow> Rect \<Rightarrow> jsnum" where
  "intersection_area r1 r2 =
     js_mul (Num (min (rect_x r1 + rect_width r1) (rect_x r2 + rect_width r2) - max (rect_x r1) (rect_x r2)))
            (Num (min (rect_y r1 + rect_height r1) (rect_y r2 + rect_height r2) - max (rect_y r1) (rect_y r2)))"

definition rect_area :: "Rect \<Rightarrow> jsnum" where
  "rect_area r = js_mul (Num (rect_width r)) (Num (rect_height r))"

definition should_union :: "Rect \<Rightarrow> Rect \<Rightarrow> bool" where
  "should_union r1 r2 =
     (boxes_intersect r1 r2 \<and>
      js_ge (js_div (intersection_area r1 r2) (js_mul (rect_area r1) (js_div (rect_area r1) (rect_area r2))))
            (Fin (1 / 2)) \<and>
      js_ge (js_div (intersection_area r1 r2) (js_mul (rect_area r2) (js_div (rect_area r1) (rect_area r2))))
            (Fin (1 / 2)))"

text \<open>
  Scenario B of the specification: the two raw rectangles, and what the specification
  says the merger returns for them.
\<close>

definition scenario_B_first :: Rect where
  "scenario_B_first = \<lparr>rect_x = 0, rect_y = 0, rect_width = 10, rect_height = 10, rect_total = 0\<rparr>"

definition scenario_B_second :: Rect where
  "scenario_B_second = \<lparr>rect_x = 5, rect_y = 5, rect_width = 10, rect_height = 10, rect_total = 0\<rparr>"

definition scenario_B_expected :: "(error + Rect list) option \<Rightarrow> bool" where
  "scenario_B_expected out =
     (case out of
        Some (Inr [r]) \<Rightarrow>
          rect_total r = 2 \<and> (rect_x r = 2 \<or> rect_x r = 3) \<and> (rect_y r = 2 \<or> rect_y r = 3)
      | _ \<Rightarrow> False)"

section \<open>ViolaJones.isTriviallyExcluded\<close>

definition isTriviallyExcluded :: "jsnum \<Rightarrow> int list \<Rightarrow> int \<Rightarrow> int \<Rightarrow> int \<Rightarrow> int \<Rightarrow> int \<Rightarrow> bool" where
  "isTriviallyExcluded edgesDensity integralImageSobel i j width blockWidth blockHeight =
     (let wbA = i * width + j;
          wbB = wbA + blockWidth;
          wbD = wbA + blockHeight * width;
          wbC = wbD + blockWidth;
          blockEdgesDensity =
            js_div
              (js_add
                 (js_sub
                    (js_sub (i32_get integralImageSobel wbA) (i32_get integralImageSobel wbB))
                    (i32_get integralImageSobel wbD))
                 (i32_get integralImageSobel wbC))
              (js_mul (js_mul (Num blockWidth) (Num blockHeight)) (Fin 255))
      in js_lt blockEdgesDensity edgesDensity)"

text \<open>
  The same test in the words of the specification: the table cell of a row and a column,
  and the four corners of the block.
\<close>

definition table_cell :: "int list \<Rightarrow> int \<Rightarrow> int \<Rightarrow> int \<Rightarrow> jsnum" where
  "table_cell table width row col = i32_get table (row * width + col)"

definition block_edge_density :: "int list \<Rightarrow> int \<Rightarrow> int \<Rightarrow> int \<Rightarrow> int \<Rightarrow> int \<Rightarrow> jsnum" where
  "block_edge_density edgeSum width row col blockWidth blockHeight =
     js_div
       (js_add
          (js_sub
             (js_sub (table_cell edgeSum width row col) (table_cell edgeSum width row (col + blockWidth)))
             (table_cell edgeSum width (row + blockHeight) col))
          (table_cell edgeSum width (row + blockHeight) (col + blockWidth)))
       (js_mul (js_mul (Num blockWidth) (Num blockHeight)) (Fin 255))"

section \<open>ViolaJones.evalStages\<close>

text \<open>
  The variables of \<open>evalStages_\<close> that its loops read and never change: the cascade, two
  of the tables, the window position, the scale, and the two values computed before the
  loops.
\<close>

record stage_env =
  env_data :: "jsnum list"
  env_integralImage :: "int list"
  env_tiltedIntegralImage :: "int list"
  env_i :: int
  env_j :: int
  env_width :: int
  env_scale :: jsnum
  env_inverseArea :: jsnum
  env_standardDeviation :: jsnum

text \<open>
  One round of the rectangle loop adds \<open>rect_sum\<close> to \<open>rectsSum\<close>; its last five arguments
  are the cells \<open>data[w]\<close> to \<open>data[w + 4]\<close>, read in this order.
\<close>

definition rect_sum :: "stage_env \<Rightarrow> jsnum \<Rightarrow> jsnum \<Rightarrow> jsnum \<Rightarrow> jsnum \<Rightarrow> jsnum \<Rightarrow> jsnum \<Rightarrow> jsnum" where
  "rect_sum e tilted dx dy dw dh rectWeight =
     (let width = env_width e;
          rectLeft = to_int32 (js_add (js_add (Num (env_j e)) (js_mul dx (env_scale e))) (Fin (1 / 2)));
          rectTop = to_int32 (js_add (js_add (Num (env_i e)) (js_mul dy (env_scale e))) (Fin (1 / 2)));
          rectWidth = to_int32 (js_add (js_mul dw (env_scale e)) (Fin (1 / 2)));
          rectHeight = to_int32 (js_add (js_mul dh (env_scale e)) (Fin (1 / 2)))
      in if truthy tilted then
           (let w1 = rectLeft - rectHeight + rectWidth + (rectTop + rectWidth + rectHeight - 1) * width;
                w2 = rectLeft + (rectTop - 1) * width;
                w3 = rectLeft - rectHeight + (rectTop + rectHeight - 1) * width;
                w4 = rectLeft + rectWidth + (rectTop + rectWidth - 1) * width
            in js_mul
                 (js_sub
                    (js_sub
                       (js_add (i32_get (env_tiltedIntegralImage e) w1) (i32_get (env_tiltedIntegralImage e) w2))
                       (i32_get (env_tiltedIntegralImage e) w3))
                    (i32_get (env_tiltedIntegralImage e) w4))
                 rectWeight)
         else
           (let w1 = rectTop * width + rectLeft;
                w2 = w1 + rectWidth;
                w3 = w1 + rectHeight * width;
                w4 = w3 + rectWidth
            in js_mul
                 (js_add
                    (js_sub
                       (js_sub (i32_get (env_integralImage e) w1) (i32_get (env_integralImage e) w2))
                       (i32_get (env_integralImage e) w3))
                    (i32_get (env_integralImage e) w4))
                 rectWeight))"

text \<open>
  The three nested loops, each with the cursor \<open>w\<close>. \<open>for (r = 0; r < rectsLength; r++)\<close>
  does not end for an infinite \<open>rectsLength\<close>, and \<open>while (nodeLength--)\<close> ends only when
  the count reaches a zero or is NaN, so the loops are partial.
\<close>

partial_function (option) rects_loop ::
  "stage_env \<Rightarrow> jsnum \<Rightarrow> jsnum \<Rightarrow> nat \<Rightarrow> nat \<Rightarrow> jsnum \<Rightarrow> (nat \<times> jsnum) option" where
  "rects_loop e tilted rectsLength r w rectsSum =
     (if js_lt (Num (int r)) rectsLength then
        rects_loop e tilted rectsLength (r + 1) (w + 5)
          (js_add rectsSum
             (rect_sum e tilted (f64_get (env_data e) w) (f64_get (env_data e) (w + 1))
                (f64_get (env_data e) (w + 2)) (f64_get (env_data e) (w + 3))
                (f64_get (env_data e) (w + 4))))
      else Some (w, rectsSum))"

declare rects_loop.simps [code]

partial_function (option) nodes_loop ::
  "stage_env \<Rightarrow> jsnum \<Rightarrow> nat \<Rightarrow> jsnum \<Rightarrow> (nat \<times> jsnum) option" where
  "nodes_loop e nodeLength w stageSum =
     (if truthy nodeLength then
        (let tilted = f64_get (env_data e) w;
             rectsLength = f64_get (env_data e) (w + 1)
         in case rects_loop e tilted rectsLength 0 (w + 2) (Fin 0) of
              None \<Rightarrow> None
            | Some (w', rectsSum) \<Rightarrow>
                (let nodeThreshold = f64_get (env_data e) w';
                     nodeLeft = f64_get (env_data e) (w' + 1);
                     nodeRight = f64_get (env_data e) (w' + 2)
                 in nodes_loop e (js_sub nodeLength (Fin 1)) (w' + 3)
                      (if js_lt (js_mul rectsSum (env_inverseArea e))
                            (js_mul nodeThreshold (env_standardDeviation e))
                       then js_add stageSum nodeLeft
                       else js_add stageSum nodeRight)))
      else Some (w, stageSum))"

declare nodes_loop.simps [code]

partial_function (option) stages_loop :: "stage_env \<Rightarrow> nat \<Rightarrow> bool option" where
  "stages_loop e w =
     (if w < length (env_data e) then
        (let stageThreshold = f64_get (env_data e) w;
             nodeLength = f64_get (env_data e) (w + 1)
         in case nodes_loop e nodeLength (w + 2) (Fin 0) of
              None \<Rightarrow> None
            | Some (w', stageSum) \<Rightarrow>
                if js_lt stageSum stageThreshold then Some False else stages_loop e w')
      else Some True)"

declare stages_loop.simps [code]

text \<open>The part of \<open>evalStages_\<close> before the loops: mean, variance, standard deviation.\<close>

definition window_sum :: "int list \<Rightarrow> int \<Rightarrow> int \<Rightarrow> int \<Rightarrow> int \<Rightarrow> int \<Rightarrow> jsnum" where
  "window_sum table i j width blockWidth blockHeight =
     (let wbA = i * width + j;
          wbB = wbA + blockWidth;
          wbD = wbA + blockHeight * width;
          wbC = wbD + blockWidth
      in js_add (js_sub (js_sub (i32_get table wbA) (i32_get table wbB)) (i32_get table wbD))
           (i32_get table wbC))"

definition evalStages_env ::
  "jsnum list \<Rightarrow> int list \<Rightarrow> int list \<Rightarrow> int list \<Rightarrow> int \<Rightarrow> int \<Rightarrow> int \<Rightarrow> int \<Rightarrow> int \<Rightarrow> jsnum \<Rightarrow> stage_env" where
  "evalStages_env data integralImage integralImageSquare tiltedIntegralImage i j width blockWidth
       blockHeight scale =
     (let inverseArea = js_div (Fin 1) (js_mul (Num blockWidth) (Num blockHeight));
          mean = js_mul (window_sum integralImage i j width blockWidth blockHeight) inverseArea;
          variance =
            js_sub (js_mul (window_sum integralImageSquare i j width blockWidth blockHeight) inverseArea)
              (js_mul mean mean);
          standardDeviation = (if js_gt variance (Fin 0) then js_sqrt variance else Fin 1)
      in \<lparr>env_data = data, env_integralImage = integralImage,
          env_tiltedIntegralImage = tiltedIntegralImage, env_i = i, env_j = j, env_width = width,
          env_scale = scale, env_inverseArea = inverseArea,
          env_standardDeviation = standardDeviation\<rparr>)"

definition evalStages ::
  "jsnum list \<Rightarrow> int list \<Rightarrow> int list \<Rightarrow> int list \<Rightarrow> int \<Rightarrow> int \<Rightarrow> int \<Rightarrow> int \<Rightarrow> int \<Rightarrow> jsnum \<Rightarrow> bool option" where
  "evalStages data integralImage integralImageSquare tiltedIntegralImage i j width blockWidth
       blockHeight scale =
     stages_loop
       (evalStages_env data integralImage integralImageSquare tiltedIntegralImage i j width blockWidth
          blockHeight scale) 2"

text \<open>
  The cascade as the specification describes it, its flat encoding, and the evaluation
  of a stage in the words of the specification.
\<close>

record feature_rect =
  fr_x :: jsnum
  fr_y :: jsnum
  fr_width :: jsnum
  fr_height :: jsnum
  fr_weight :: jsnum

record node =
  node_tilted :: jsnum
  node_rects :: "feature_rect list"
  node_threshold :: jsnum
  node_left :: jsnum
  node_right :: jsnum

record stage =
  stage_threshold :: jsnum
  stage_nodes :: "node list"

definition encode_rect :: "feature_rect \<Rightarrow> jsnum list" where
  "encode_rect r = [fr_x r, fr_y r, fr_width r, fr_height r, fr_weight r]"

definition encode_node :: "node \<Rightarrow> jsnum list" where
  "encode_node n =
     [node_tilted n, Num (int (length (node_rects n)))] @ concat (map encode_rect (node_rects n)) @
     [node_threshold n, node_left n, node_right n]"

definition encode_stage :: "stage \<Rightarrow> jsnum list" where
  "encode_stage s =
     [stage_threshold s, Num (int (length (stage_nodes s)))] @ concat (map encode_node (stage_nodes s))"

definition encode_cascade :: "jsnum \<Rightarrow> jsnum \<Rightarrow> stage list \<Rightarrow> jsnum list" where
  "encode_cascade minWidth minHeight stages = [minWidth, minHeight] @ concat (map encode_stage stages)"

definition weighted_rect_sum :: "stage_env \<Rightarrow> node \<Rightarrow> jsnum" where
  "weighted_rect_sum e n =
     foldl js_add (Fin 0)
       (map (\<lambda>r. rect_sum e (node_tilted n) (fr_x r) (fr_y r) (fr_width r) (fr_height r) (fr_weight r))
          (node_rects n))"

definition node_value :: "stage_env \<Rightarrow> node \<Rightarrow> jsnum" where
  "node_value e n =
     (if js_lt (js_mul (weighted_rect_sum e n) (env_inverseArea e))
           (js_mul (node_threshold n) (env_standardDeviation e))
      then node_left n else node_right n)"

definition stage_sum :: "stage_env \<Rightarrow> stage \<Rightarrow> jsnum" where
  "stage_sum e s = foldl js_add (Fin 0) (map (node_value e) (stage_nodes s))"

definition stage_rejects :: "stage_env \<Rightarrow> stage \<Rightarrow> bool" where
  "stage_rejects e s = js_lt (stage_sum e s) (stage_threshold s)"

definition window_variance :: "int list \<Rightarrow> int list \<Rightarrow> int \<Rightarrow> int \<Rightarrow> int \<Rightarrow> int \<Rightarrow> int \<Rightarrow> jsnum" where
  "window_variance integralImage integralImageSquare i j width blockWidth blockHeight =
     (let inverseArea = js_div (Fin 1) (js_mul (Num blockWidth) (Num blockHeight));
          mean = js_mul (window_sum integralImage i j width blockWidth blockHeight) inverseArea
      in js_sub (js_mul (window_sum integralImageSquare i j width blockWidth blockHeight) inverseArea)
           (js_mul mean mean))"

section \<open>ViolaJones.detect\<close>

text \<open>
  \<open>detect\<close> first fills the four tables with \<open>Image.computeIntegralImage\<close>. The tables are
  parameters here, in place of \<open>pixels\<close>: the theorems below hold for all tables. The
  image sizes are integers. The variables of \<open>detect\<close> that the scan loops only read:
\<close>

record detect_env =
  det_data :: "jsnum list"
  det_integralImage :: "int list"
  det_integralImageSquare :: "int list"
  det_tiltedIntegralImage :: "int list"
  det_integralImageSobel :: "int list option"
  det_width :: int
  det_height :: int
  det_scaleFactor :: jsnum
  det_stepSize :: jsnum
  det_edgesDensity :: jsnum
  det_minWidth :: jsnum
  det_minHeight :: jsnum

text \<open>
  The scan state is the array \<open>rects\<close> (\<open>total\<close> is its length). \<open>st_visits\<close> is not in the
  code: it records, for every round of the innermost loop, the window, what the pruner
  returned if it was called, and what the evaluator returned if it was reached.
\<close>

datatype visit =
  Visit (v_i: int) (v_j: int) (v_blockWidth: int) (v_blockHeight: int)
    (v_pruned: "bool option") (v_accepted: "bool option")

record scan_state =
  st_rects :: "Rect list"
  st_visits :: "visit list"

partial_function (option) cols_loop ::
  "detect_env \<Rightarrow> jsnum \<Rightarrow> int \<Rightarrow> int \<Rightarrow> int \<Rightarrow> int \<Rightarrow> int \<Rightarrow> scan_state \<Rightarrow> scan_state option" where
  "cols_loop d scale blockWidth blockHeight step i j st =
     (if j < det_width d - blockWidth then
        (let pruned =
               (if js_gt (det_edgesDensity d) (Fin 0) then
                  (case det_integralImageSobel d of
                     None \<Rightarrow> None
                   | Some integralImageSobel \<Rightarrow>
                       Some (isTriviallyExcluded (det_edgesDensity d) integralImageSobel i j (det_width d)
                               blockWidth blockHeight))
                else None)
         in if pruned = Some True then
              cols_loop d scale blockWidth blockHeight step i (j + step)
                (st\<lparr>st_visits := st_visits st @ [Visit i j blockWidth blockHeight pruned None]\<rparr>)
            else
              (case evalStages (det_data d) (det_integralImage d) (det_integralImageSquare d)
                      (det_tiltedIntegralImage d) i j (det_width d) blockWidth blockHeight scale of
                 None \<Rightarrow> None
               | Some accepted \<Rightarrow>
                   cols_loop d scale blockWidth blockHeight step i (j + step)
                     \<lparr>st_rects =
                        (if accepted then
                           st_rects st @
                           [\<lparr>rect_x = j, rect_y = i, rect_width = blockWidth,
                             rect_height = blockHeight, rect_total = 0\<rparr>]
                         else st_rects st),
                      st_visits = st_visits st @ [Visit i j blockWidth blockHeight pruned (Some accepted)]\<rparr>))
      else Some st)"

declare cols_loop.simps [code]

partial_function (option) rows_loop ::
  "detect_env \<Rightarrow> jsnum \<Rightarrow> int \<Rightarrow> int \<Rightarrow> int \<Rightarrow> int \<Rightarrow> scan_state \<Rightarrow> scan_state option" where
  "rows_loop d scale blockWidth blockHeight step i st =
     (if i < det_height d - blockHeight then
        (case cols_loop d scale blockWidth blockHeight step i 0 st of
           None \<Rightarrow> None
         | Some st' \<Rightarrow> rows_loop d scale blockWidth blockHeight step (i + step) st')
      else Some st)"

declare rows_loop.simps [code]

partial_function (option) scale_loop ::
  "detect_env \<Rightarrow> jsnum \<Rightarrow> int \<Rightarrow> int \<Rightarrow> scan_state \<Rightarrow> scan_state option" where
  "scale_loop d scale blockWidth blockHeight st =
     (if blockWidth < det_width d \<and> blockHeight < det_height d then
        (let step = to_int32 (js_add (js_mul scale (det_stepSize d)) (Fin (1 / 2)))
         in case rows_loop d scale blockWidth blockHeight step 0 st of
              None \<Rightarrow> None
            | Some st' \<Rightarrow>
                (let scale' = js_mul scale (det_scaleFactor d)
                 in scale_loop d scale' (to_int32 (js_mul scale' (det_minWidth d)))
                      (to_int32 (js_mul scale' (det_minHeight d))) st'))
      else Some st)"

declare scale_loop.simps [code]

text \<open>
  \<open>scan\<close> is \<open>detect\<close> up to the call of the merger. \<open>new Int32Array(width * height)\<close>
  throws a RangeError for a negative length (and for one above the engine's limit, which
  is not modelled).
\<close>

definition detect_env_of ::
  "int list \<Rightarrow> int list \<Rightarrow> int list \<Rightarrow> int list \<Rightarrow> int \<Rightarrow> int \<Rightarrow> jsnum \<Rightarrow> jsnum \<Rightarrow> jsnum \<Rightarrow> jsnum list \<Rightarrow> detect_env" where
  "detect_env_of integralImage integralImageSquare tiltedIntegralImage sobel width height scaleFactor
       stepSize edgesDensity data =
     \<lparr>det_data = data, det_integralImage = integralImage,
      det_integralImageSquare = integralImageSquare,
      det_tiltedIntegralImage = tiltedIntegralImage,
      det_integralImageSobel = (if js_gt edgesDensity (Fin 0) then Some sobel else None),
      det_width = width, det_height = height, det_scaleFactor = scaleFactor,
      det_stepSize = stepSize, det_edgesDensity = edgesDensity,
      det_minWidth = f64_get data 0, det_minHeight = f64_get data 1\<rparr>"

definition scan ::
  "int list \<Rightarrow> int list \<Rightarrow> int list \<Rightarrow> int list \<Rightarrow> int \<Rightarrow> int \<Rightarrow> jsnum \<Rightarrow> jsnum \<Rightarrow> jsnum \<Rightarrow> jsnum \<Rightarrow> jsnum list \<Rightarrow> scan_state option" where
  "scan integralImage integralImageSquare tiltedIntegralImage sobel width height initialScale
       scaleFactor stepSize edgesDensity data =
     (let d = detect_env_of integralImage integralImageSquare tiltedIntegralImage sobel width height
                scaleFactor stepSize edgesDensity data;
          scale = js_mul initialScale scaleFactor;
          blockWidth = to_int32 (js_mul scale (det_minWidth d));
          blockHeight = to_int32 (js_mul scale (det_minHeight d))
      in scale_loop d scale blockWidth blockHeight \<lparr>st_rects = [], st_visits = []\<rparr>)"

definition detect ::
  "int list \<Rightarrow> int list \<Rightarrow> int list \<Rightarrow> int list \<Rightarrow> int \<Rightarrow> int \<Rightarrow> jsnum \<Rightarrow> jsnum \<Rightarrow> jsnum \<Rightarrow> jsnum \<Rightarrow> jsnum list \<Rightarrow> (error + Rect list) option" where
  "detect integralImage integralImageSquare tiltedIntegralImage sobel width height initialScale
       scaleFactor stepSize edgesDensity data =
     (if width * height < 0 then Some (Inl RangeError)
      else
        (case scan integralImage integralImageSquare tiltedIntegralImage sobel width height initialScale
                scaleFactor stepSize edgesDensity data of
           None \<Rightarrow> None
         | Some st \<Rightarrow> mergeRectangles (st_rects st)))"

text \<open>
  One round of the innermost loop as a function of the window, and its effect on the scan
  state; \<open>evaluated\<close> counts the windows that reached the evaluator.
\<close>

definition visit_window :: "detect_env \<Rightarrow> jsnum \<Rightarrow> int \<Rightarrow> int \<Rightarrow> int \<Rightarrow> int \<Rightarrow> visit option" where
  "visit_window d scale blockWidth blockHeight i j =
     (let pruned =
            (if js_gt (det_edgesDensity d) (Fin 0) then
               (case det_integralImageSobel d of
                  None \<Rightarrow> None
                | Some integralImageSobel \<Rightarrow>
                    Some (isTriviallyExcluded (det_edgesDensity d) integralImageSobel i j (det_width d)
                            blockWidth blockHeight))
             else None)
      in if pruned = Some True then Some (Visit i j blockWidth blockHeight pruned None)
         else
           map_option (\<lambda>accepted. Visit i j blockWidth blockHeight pruned (Some accepted))
             (evalStages (det_data d) (det_integralImage d) (det_integralImageSquare d)
                (det_tiltedIntegralImage d) i j (det_width d) blockWidth blockHeight scale))"

definition rect_of_visit :: "visit \<Rightarrow> Rect" where
  "rect_of_visit v =
     \<lparr>rect_x = v_j v, rect_y = v_i v, rect_width = v_blockWidth v, rect_height = v_blockHeight v,
      rect_total = 0\<rparr>"

definition push_visit :: "scan_state \<Rightarrow> visit \<Rightarrow> scan_state" where
  "push_visit st v =
     \<lparr>st_rects = (if v_accepted v = Some True then st_rects st @ [rect_of_visit v] else st_rects st),
      st_visits = st_visits st @ [v]\<rparr>"

definition evaluated :: "scan_state \<Rightarrow> nat" where
  "evaluated st = length (filter (\<lambda>v. v_accepted v \<noteq> None) (st_visits st))"

definition same_window :: "visit \<Rightarrow> visit \<Rightarrow> bool" where
  "same_window v1 v2 =
     (v_i v1 = v_i v2 \<and> v_j v1 = v_j v2 \<and> v_blockWidth v1 = v_blockWidth v2 \<and>
      v_blockHeight v1 = v_blockHeight v2)"

text \<open>The block side and the stride at a scale, as \<open>detect\<close> computes them.\<close>

definition block_at :: "jsnum \<Rightarrow> jsnum \<Rightarrow> int" where
  "block_at scale minSize = to_int32 (js_mul scale minSize)"

definition step_at :: "jsnum \<Rightarrow> jsnum \<Rightarrow> int" where
  "step_at scale stepSize = to_int32 (js_add (js_mul scale stepSize) (Fin (1 / 2)))"

text \<open>
  The runs of the three scan loops as relations between the state before and after.
\<close>

inductive cols_run ::
  "detect_env \<Rightarrow> jsnum \<Rightarrow> int \<Rightarrow> int \<Rightarrow> int \<Rightarrow> int \<Rightarrow> int \<Rightarrow> scan_state \<Rightarrow> scan_state \<Rightarrow> bool"
  for d :: detect_env and scale :: jsnum and blockWidth :: int and blockHeight :: int and step :: int
    and i :: int where
  cols_done: "\<not> j < det_width d - blockWidth \<Longrightarrow> cols_run d scale blockWidth blockHeight step i j st st"
| cols_step: "j < det_width d - blockWidth \<Longrightarrow>
     visit_window d scale blockWidth blockHeight i j = Some v \<Longrightarrow>
     cols_run d scale blockWidth blockHeight step i (j + step) (push_visit st v) st' \<Longrightarrow>
     cols_run d scale blockWidth blockHeight step i j st st'"

inductive rows_run ::
  "detect_env \<Rightarrow> jsnum \<Rightarrow> int \<Rightarrow> int \<Rightarrow> int \<Rightarrow> int \<Rightarrow> scan_state \<Rightarrow> scan_state \<Rightarrow> bool"
  for d :: detect_env and scale :: jsnum and blockWidth :: int and blockHeight :: int and step :: int where
  rows_done: "\<not> i < det_height d - blockHeight \<Longrightarrow> rows_run d scale blockWidth blockHeight step i st st"
| rows_step: "i < det_height d - blockHeight \<Longrightarrow>
     cols_run d scale blockWidth blockHeight step i 0 st st1 \<Longrightarrow>
     rows_run d scale blockWidth blockHeight step (i + step) st1 st' \<Longrightarrow>
     rows_run d scale blockWidth blockHeight step i st st'"

inductive scale_run :: "detect_env \<Rightarrow> jsnum \<Rightarrow> int \<Rightarrow> int \<Rightarrow> scan_state \<Rightarrow> scan_state \<Rightarrow> bool"
  for d :: detect_env where
  scale_done: "\<not> (blockWidth < det_width d \<and> blockHeight < det_height d) \<Longrightarrow>
     scale_run d scale blockWidth blockHeight st st"
| scale_step: "blockWidth < det_width d \<and> blockHeight < det_height d \<Longrightarrow>
     rows_run d scale blockWidth blockHeight (step_at scale (det_stepSize d)) 0 st st1 \<Longrightarrow>
     scale_run d (js_mul scale (det_scaleFactor d))
       (block_at (js_mul scale (det_scaleFactor d)) (det_minWidth d))
       (block_at (js_mul scale (det_scaleFactor d)) (det_minHeight d)) st1 st' \<Longrightarrow>
     scale_run d scale blockWidth blockHeight st st'"

text \<open>
  The scan in the words of the specification: the scale of round \<open>k\<close>, the block and the
  stride at a scale, the step grid below a bound (the multiples of the stride in
  \<open>[0, bound)\<close>), and the windows of one scale, row by row.
\<close>

fun scale_at :: "jsnum \<Rightarrow> jsnum \<Rightarrow> nat \<Rightarrow> jsnum" where
  "scale_at initialScale scaleFactor 0 = js_mul initialScale scaleFactor"
| "scale_at initialScale scaleFactor (Suc k) = js_mul (scale_at initialScale scaleFactor k) scaleFactor"

definition grid :: "int \<Rightarrow> int \<Rightarrow> int list" where
  "grid step bound = map (\<lambda>a. int a * step) [0..<nat ((bound + step - 1) div step)]"

definition fits :: "detect_env \<Rightarrow> jsnum \<Rightarrow> bool" where
  "fits d scale =
     (block_at scale (det_minWidth d) < det_width d \<and> block_at scale (det_minHeight d) < det_height d)"

definition scale_windows :: "detect_env \<Rightarrow> jsnum \<Rightarrow> visit option list" where
  "scale_windows d scale =
     concat
       (map (\<lambda>i. map (\<lambda>j. visit_window d scale (block_at scale (det_minWidth d))
                              (block_at scale (det_minHeight d)) i j)
                      (grid (step_at scale (det_stepSize d))
                         (det_width d - block_at scale (det_minWidth d))))
          (grid (step_at scale (det_stepSize d)) (det_height d - block_at scale (det_minHeight d))))"



text \<open>The block and the stride as the specification words them, with \<open>floor\<close>.\<close>

definition floor_of :: "jsnum \<Rightarrow> int" where
  "floor_of a = \<lfloor>val a\<rfloor>"

definition claimed_block_at :: "jsnum \<Rightarrow> jsnum \<Rightarrow> int" where
  "claimed_block_at scale minSize = floor_of (js_mul scale minSize)"

definition claimed_step_at :: "jsnum \<Rightarrow> jsnum \<Rightarrow> int" where
  "claimed_step_at scale stepSize = floor_of (js_add (js_mul scale stepSize) (Fin (1 / 2)))"

text \<open>
  \<open>coherent\<close>: the rectangles collected are the accepted visits, in order. \<open>run_le\<close>
  relates two scans that visit the same windows, where every window the second one
  passes to the evaluator is passed to it by the first one too, with the same verdict.
\<close>

definition coherent :: "scan_state \<Rightarrow> bool" where
  "coherent st \<longleftrightarrow>
     st_rects st = map rect_of_visit (filter (\<lambda>v. v_accepted v = Some True) (st_visits st))"

definition run_le :: "scan_state \<Rightarrow> scan_state \<Rightarrow> bool" where
  "run_le st1 st2 \<longleftrightarrow>
     list_all2 (\<lambda>v1 v2. same_window v1 v2 \<and> (v_accepted v2 \<noteq> None \<longrightarrow> v_accepted v2 = v_accepted v1))
       (st_visits st1) (st_visits st2)"

text \<open>
  Inputs for the examples: the tables of a 3 by 3 image of zeros, and a stage of one
  node over one upright rectangle, with the stage threshold as parameter.
\<close>

definition zero_table :: "int list" where
  "zero_table = [0, 0, 0, 0, 0, 0, 0, 0, 0]"

definition unit_node :: node where
  "unit_node =
     \<lparr>node_tilted = Fin 0,
      node_rects = [\<lparr>fr_x = Fin 0, fr_y = Fin 0, fr_width = Fin 1, fr_height = Fin 1, fr_weight = Fin 1\<rparr>],
      node_threshold = Fin 1, node_left = Fin 1, node_right = Fin 2\<rparr>"

definition unit_stage :: "real \<Rightarrow> stage" where
  "unit_stage threshold = \<lparr>stage_threshold = Fin threshold, stage_nodes = [unit_node]\<rparr>"

section \<open>Proofs: numbers\<close>

lemma Num_lt [simp]: "js_lt (Num a) (Num b) \<longleftrightarrow> a < b"
  by (simp add: js_lt_def Num_def)

lemma truthy_Num [simp]: "truthy (Num k) \<longleftrightarrow> k \<noteq> 0"
  by (simp add: truthy_def Num_def is_zero_def)

lemma Num_dec: "js_sub (Num (int (Suc k))) (Fin 1) = Num (int k)"
  by (simp add: js_sub_def js_add_def Num_def is_inf_def fin_of_def zero_of_def)

lemma zero_ratio: "is_zero a \<Longrightarrow> \<not> js_ge (js_div a d) (Fin (1 / 2))"
  by (cases d) (auto simp: is_zero_def js_div_def js_ge_def js_lt_def is_inf_def zero_of_def inf_of_def fin_of_def)

lemma mul_neg_neg:
  "js_mul (Num (- a)) (Num (- b)) = js_mul (Num a) (Num b) \<or>
   (is_zero (js_mul (Num (- a)) (Num (- b))) \<and> is_zero (js_mul (Num a) (Num b)))"
  by (auto simp: js_mul_def Num_def is_zero_def is_inf_def fin_of_def zero_of_def)

lemma ratio_neg_neg:
  "js_ge (js_div (js_mul (Num (- a)) (Num (- b))) d) (Fin (1 / 2)) =
   js_ge (js_div (js_mul (Num a) (Num b)) d) (Fin (1 / 2))"
  using mul_neg_neg [of a b] zero_ratio by auto


section \<open>Proofs: DisjointSet\<close>


lemma rooted_root: "rooted p i r \<Longrightarrow> r < length p \<and> p ! r = r"
  by (induction rule: rooted.induct) auto

lemma rooted_lt: "rooted p i r \<Longrightarrow> i < length p"
  by (erule rooted.cases) auto

lemma rooted_fun: "rooted p i r \<Longrightarrow> rooted p i r' \<Longrightarrow> r = r'"
proof (induction arbitrary: r' rule: rooted.induct)
  case (rooted_self i)
  from rooted_self.prems rooted_self.hyps show ?case
    by (cases rule: rooted.cases) auto
next
  case (rooted_up i r)
  from rooted_up.prems rooted_up.hyps(2) have "rooted p (p ! i) r'"
    by (cases rule: rooted.cases) auto
  then show ?case by (rule rooted_up.IH)
qed

lemma rooted_compress:
  assumes ir: "rooted p i r" and k: "rooted p k r'"
  shows "rooted (p[i := r]) k r'"
  using k
proof (induction rule: rooted.induct)
  case (rooted_self k)
  show ?case
  proof (cases "k = i")
    case True
    with rooted_self have "rooted p i i" by (auto intro: rooted.rooted_self)
    with ir have "r = i" by (auto dest: rooted_fun)
    with True rooted_self show ?thesis by (auto intro: rooted.rooted_self)
  next
    case False
    with rooted_self show ?thesis by (auto intro: rooted.rooted_self)
  qed
next
  case (rooted_up k r')
  show ?case
  proof (cases "k = i")
    case True
    from rooted_up.hyps have "rooted p k r'" by (auto intro: rooted.rooted_up)
    with True ir have rr: "r' = r" by (auto dest: rooted_fun)
    from ir have root: "r < length p" "p ! r = r" by (auto dest: rooted_root)
    with rooted_up.hyps True have ne: "r \<noteq> i" by auto
    with root have "rooted (p[i := r]) r r" by (auto intro: rooted.rooted_self)
    with ne rooted_up.hyps True rr show ?thesis
      by (auto intro: rooted.rooted_up)
  next
    case False
    with rooted_up show ?thesis by (auto intro: rooted.rooted_up)
  qed
qed

lemma rooted_link:
  assumes ri: "ri < length p" "p ! ri = ri" and rj: "rj < length p" "p ! rj = rj"
    and k: "rooted p k rk"
  shows "rooted (p[ri := rj]) k (if rk = ri then rj else rk)"
  using k
proof (induction rule: rooted.induct)
  case (rooted_self k)
  show ?case
  proof (cases "k = ri")
    case True
    show ?thesis
    proof (cases "rj = ri")
      case True
      with \<open>k = ri\<close> ri show ?thesis by (auto intro: rooted.rooted_self)
    next
      case False
      with rj have "rooted (p[ri := rj]) rj rj" by (auto intro: rooted.rooted_self)
      with False ri \<open>k = ri\<close> show ?thesis by (auto intro: rooted.rooted_up)
    qed
  next
    case False
    with rooted_self show ?thesis by (auto intro: rooted.rooted_self)
  qed
next
  case (rooted_up k rk)
  with ri have "k \<noteq> ri" by auto
  with rooted_up show ?case by (auto intro: rooted.rooted_up)
qed

lemma small_update: "small p \<Longrightarrow> v < 4294967296 \<Longrightarrow> small (p[i := v])"
  unfolding small_def list_all_iff by (auto dest: set_update_subset_insert [THEN subsetD])

lemma small_nth: "small p \<Longrightarrow> i < length p \<Longrightarrow> p ! i < 4294967296"
  unfolding small_def list_all_length by auto

lemma root_small: "small p \<Longrightarrow> rooted p i r \<Longrightarrow> r < 4294967296"
  using small_nth [of p r] rooted_root [of p i r] by auto

lemma find_rooted_aux:
  assumes "rooted p i r" and "p = parent s" and "small (parent s)"
  shows "\<exists>s'. find_ds s i = Some (Some r, s') \<and> ds_length s' = ds_length s \<and>
           length (parent s') = length (parent s) \<and> small (parent s') \<and>
           (\<forall>k r'. rooted (parent s) k r' \<longrightarrow> rooted (parent s') k r')"
  using assms
proof (induction rule: rooted.induct)
  case (rooted_self i)
  then show ?case by (subst find_ds.simps) auto
next
  case (rooted_up i r)
  note p = \<open>p = parent s\<close>
  from rooted_up.IH [OF rooted_up.prems] obtain s1 where
    f: "find_ds s (parent s ! i) = Some (Some r, s1)" and
    l: "ds_length s1 = ds_length s" "length (parent s1) = length (parent s)" and
    sm: "small (parent s1)" and
    pres: "\<forall>k r'. rooted (parent s) k r' \<longrightarrow> rooted (parent s1) k r'"
    unfolding p by blast
  from rooted_up.hyps p have ir: "rooted (parent s) i r" by (auto intro: rooted.rooted_up)
  with pres have ir1: "rooted (parent s1) i r" by blast
  from root_small [OF rooted_up.prems(2) ir] have r32: "r < 4294967296" .
  let ?s' = "s1\<lparr>parent := (parent s1)[i := to_uint32 (Some r)]\<rparr>"
  have u: "to_uint32 (Some r) = r" using r32 by (simp add: to_uint32_def)
  have "find_ds s i = Some (Some r, ?s')"
    using rooted_up.hyps(1,2) f p by (subst find_ds.simps) simp
  moreover have "\<forall>k r'. rooted (parent s) k r' \<longrightarrow> rooted (parent ?s') k r'"
    using pres rooted_compress [OF ir1] by (simp add: u)
  moreover have "small (parent ?s')" using sm r32 by (simp add: u small_update)
  ultimately show ?case using l by auto
qed

lemma find_rooted:
  assumes "rooted (parent s) i r" and "small (parent s)"
  shows "\<exists>s'. find_ds s i = Some (Some r, s') \<and> ds_length s' = ds_length s \<and>
           length (parent s') = length (parent s) \<and> small (parent s') \<and>
           (\<forall>k r'. rooted (parent s) k r' \<longrightarrow> rooted (parent s') k r')"
  using find_rooted_aux [OF assms(1) refl assms(2)] .

text \<open>forest, unfolded\<close>

lemma forest_iff:
  "forest s \<longleftrightarrow> length (parent s) = ds_length s \<and> small (parent s) \<and>
     (\<forall>i<ds_length s. \<exists>r. rooted (parent s) i r)"
  by (auto simp: forest_def)

lemma forest_find:
  assumes f: "forest s" and i: "i < ds_length s"
  shows "\<exists>r s'. find_ds s i = Some (Some r, s') \<and> rooted (parent s) i r \<and> forest s' \<and>
           ds_length s' = ds_length s \<and>
           (\<forall>k r'. rooted (parent s') k r' \<longleftrightarrow> rooted (parent s) k r')"
proof -
  from f i obtain r where r: "rooted (parent s) i r" by (auto simp: forest_iff)
  from f have sm: "small (parent s)" by (simp add: forest_iff)
  from find_rooted [OF r sm] obtain s' where
    fd: "find_ds s i = Some (Some r, s')" and l: "ds_length s' = ds_length s"
    "length (parent s') = length (parent s)" and sm': "small (parent s')" and
    pres: "\<forall>k r'. rooted (parent s) k r' \<longrightarrow> rooted (parent s') k r'" by blast
  have fs': "forest s'"
    unfolding forest_iff
  proof (intro conjI allI impI)
    show "length (parent s') = ds_length s'" using f l by (simp add: forest_iff)
    show "small (parent s')" by (rule sm')
    fix k assume "k < ds_length s'"
    with l f obtain r0 where "rooted (parent s) k r0" by (auto simp: forest_iff)
    with pres show "\<exists>r. rooted (parent s') k r" by blast
  qed
  have bk: "rooted (parent s) k r'" if h: "rooted (parent s') k r'" for k r'
  proof -
    from h have "k < ds_length s" using l f by (auto dest: rooted_lt simp: forest_iff)
    with f obtain r0 where r0: "rooted (parent s) k r0" by (auto simp: forest_iff)
    with pres have "rooted (parent s') k r0" by blast
    with h have "r0 = r'" by (auto dest: rooted_fun)
    with r0 show ?thesis by simp
  qed
  from fd r fs' l pres bk show ?thesis by blast
qed

lemma forest_union:
  assumes f: "forest s" and i: "i < ds_length s" and j: "j < ds_length s"
  shows "\<exists>ri rj s'. union_ds s i j = Some s' \<and> rooted (parent s) i ri \<and> rooted (parent s) j rj \<and>
           forest s' \<and> ds_length s' = ds_length s \<and>
           (\<forall>k rk. rooted (parent s) k rk \<longrightarrow> rooted (parent s') k (if rk = ri then rj else rk))"
proof -
  from forest_find [OF f i] obtain ri s1 where
    f1: "find_ds s i = Some (Some ri, s1)" and ri: "rooted (parent s) i ri" and fs1: "forest s1" and
    l1: "ds_length s1 = ds_length s" and
    e1: "\<forall>k r'. rooted (parent s1) k r' \<longleftrightarrow> rooted (parent s) k r'" by blast
  from j l1 have j1: "j < ds_length s1" by simp
  from forest_find [OF fs1 j1] obtain rj s2 where
    f2: "find_ds s1 j = Some (Some rj, s2)" and rj: "rooted (parent s1) j rj" and fs2: "forest s2" and
    l2: "ds_length s2 = ds_length s1" and
    e2: "\<forall>k r'. rooted (parent s2) k r' \<longleftrightarrow> rooted (parent s1) k r'" by blast
  let ?p = "parent s2"
  from ri e1 e2 have ri2: "rooted ?p i ri" by blast
  from rj e2 have rj2: "rooted ?p j rj" by blast
  from rooted_root [OF ri2] have ri_root: "ri < length ?p" "?p ! ri = ri" by auto
  from rooted_root [OF rj2] have rj_root: "rj < length ?p" "?p ! rj = rj" by auto
  from fs2 have sm2: "small ?p" by (simp add: forest_iff)
  from root_small [OF sm2 rj2] have rj32: "rj < 4294967296" .
  let ?s' = "s2\<lparr>parent := ?p[ri := rj]\<rparr>"
  have st: "store_parent s2 (Some ri) (Some rj) = ?s'"
    using ri_root rj32 by (simp add: store_parent_def to_uint32_def)
  have u: "union_ds s i j = Some ?s'"
    by (simp add: union_ds_def f1 f2 st)
  have link: "rooted (parent ?s') k (if rk = ri then rj else rk)" if "rooted (parent s) k rk" for k rk
  proof -
    from that e1 e2 have "rooted ?p k rk" by blast
    from rooted_link [OF ri_root rj_root this] show ?thesis by simp
  qed
  have "forest ?s'"
    unfolding forest_iff
  proof (intro conjI allI impI)
    show "length (parent ?s') = ds_length ?s'" using fs2 by (simp add: forest_iff)
    show "small (parent ?s')" using sm2 rj32 by (simp add: small_update)
    fix k assume "k < ds_length ?s'"
    with l1 l2 have "k < ds_length s" by simp
    with f obtain rk where "rooted (parent s) k rk" by (auto simp: forest_iff)
    from link [OF this] show "\<exists>r. rooted (parent ?s') k r" by blast
  qed
  moreover have "rooted (parent s) j rj" using rj e1 by blast
  ultimately show ?thesis using u ri link l1 l2 by (intro exI [of _ ri] exI [of _ rj] exI [of _ ?s']) simp
qed

lemma forest_new: "forest (new_DisjointSet n)"
  unfolding forest_iff
proof (intro conjI allI impI)
  show "length (parent (new_DisjointSet n)) = ds_length (new_DisjointSet n)"
    by (simp add: new_DisjointSet_def)
  show "small (parent (new_DisjointSet n))"
    by (simp add: new_DisjointSet_def small_def list_all_iff)
  fix i assume "i < ds_length (new_DisjointSet n)"
  then have i: "i < n" by (simp add: new_DisjointSet_def)
  let ?p = "parent (new_DisjointSet n)"
  have nth: "?p ! k = k mod 4294967296" if "k < n" for k
    using that by (simp add: new_DisjointSet_def)
  have len: "length ?p = n" by (simp add: new_DisjointSet_def)
  let ?r = "i mod 4294967296"
  have rn: "?r < n" using i by (meson le_less_trans mod_less_eq_dividend)
  have "rooted ?p ?r ?r" using rn nth [OF rn] len by (auto intro: rooted.rooted_self)
  then have "rooted ?p i ?r"
    using i nth [OF i] len by (cases "?r = i") (auto intro: rooted.rooted_up)
  then show "\<exists>r. rooted ?p i r" by blast
qed

lemma new_rooted:
  assumes "n \<le> 4294967296" and "i < n"
  shows "rooted (parent (new_DisjointSet n)) i i"
  using assms by (auto intro!: rooted.rooted_self simp: new_DisjointSet_def)



lemma unions_append:
  "unions s (cs @ ds) = (case unions s cs of None \<Rightarrow> None | Some s' \<Rightarrow> unions s' ds)"
  by (induction cs arbitrary: s) (auto split: option.splits)

lemma connected_sym: "(x, y) \<in> connected cs \<Longrightarrow> (y, x) \<in> connected cs"
  unfolding connected_def
  using sym_rtrancl [OF sym_Un_converse, of "set cs"] by (auto dest: symD)

lemma connected_trans: "(x, y) \<in> connected cs \<Longrightarrow> (y, z) \<in> connected cs \<Longrightarrow> (x, z) \<in> connected cs"
  unfolding connected_def by (rule rtrancl_trans)

lemma connected_refl: "(x, x) \<in> connected cs"
  unfolding connected_def by simp

lemma connected_snoc:
  "(a, b) \<in> connected (cs @ [(i, j)]) \<longleftrightarrow>
     (a, b) \<in> connected cs \<or> ((a, i) \<in> connected cs \<and> (j, b) \<in> connected cs) \<or>
     ((a, j) \<in> connected cs \<and> (i, b) \<in> connected cs)"
  (is "?L \<longleftrightarrow> ?R a b")
proof
  let ?E = "set cs \<union> (set cs)\<inverse>"
  let ?E' = "set (cs @ [(i, j)]) \<union> (set (cs @ [(i, j)]))\<inverse>"
  have E': "?E' = ?E \<union> {(i, j), (j, i)}" by auto
  assume ?L
  then have "(a, b) \<in> ?E'\<^sup>*" by (simp only: connected_def)
  then show "?R a b"
  proof (induction rule: rtrancl_induct)
    case base
    show ?case by (simp add: connected_refl)
  next
    case (step y z)
    from step.hyps(2) have "(y, z) \<in> ?E \<or> (y = i \<and> z = j) \<or> (y = j \<and> z = i)"
      unfolding E' by auto
    then consider (old) "(y, z) \<in> connected cs" | (ij) "y = i" "z = j" | (ji) "y = j" "z = i"
      unfolding connected_def by auto
    then show ?case
    proof cases
      case old
      with step.IH show ?thesis by (meson connected_trans)
    next
      case ij
      with step.IH show ?thesis by (meson connected_refl connected_trans connected_sym)
    next
      case ji
      with step.IH show ?thesis by (meson connected_refl connected_trans connected_sym)
    qed
  qed
next
  have mono: "connected cs \<subseteq> connected (cs @ [(i, j)])"
    unfolding connected_def by (rule rtrancl_mono) auto
  have ij: "(i, j) \<in> connected (cs @ [(i, j)])" "(j, i) \<in> connected (cs @ [(i, j)])"
    unfolding connected_def by auto
  assume "?R a b"
  with mono ij show ?L
    by (meson connected_trans subsetD)
qed

lemma same_rep_forest:
  assumes f: "forest s" and i: "i < ds_length s" and j: "j < ds_length s"
  shows "same_rep s i j = Some (\<exists>r. rooted (parent s) i r \<and> rooted (parent s) j r)"
proof -
  from forest_find [OF f i] obtain ri s1 where
    f1: "find_ds s i = Some (Some ri, s1)" and ri: "rooted (parent s) i ri" and fs1: "forest s1" and
    l1: "ds_length s1 = ds_length s" and
    e1: "\<forall>k r'. rooted (parent s1) k r' \<longleftrightarrow> rooted (parent s) k r'" by blast
  from j l1 have j1: "j < ds_length s1" by simp
  from forest_find [OF fs1 j1] obtain rj s2 where
    f2: "find_ds s1 j = Some (Some rj, s2)" and rj: "rooted (parent s1) j rj" by blast
  from rj e1 have rj0: "rooted (parent s) j rj" by blast
  have "(ri = rj) = (\<exists>r. rooted (parent s) i r \<and> rooted (parent s) j r)"
    using ri rj0 by (auto dest: rooted_fun)
  then show ?thesis by (simp add: same_rep_def f1 f2)
qed

lemma unions_inv:
  assumes n: "n \<le> 4294967296" and cs: "list_all (\<lambda>c. fst c < n \<and> snd c < n) cs"
  shows "\<exists>s. unions (new_DisjointSet n) cs = Some s \<and> forest s \<and> ds_length s = n \<and>
           (\<forall>a<n. \<forall>b<n. (\<exists>r. rooted (parent s) a r \<and> rooted (parent s) b r) \<longleftrightarrow> (a, b) \<in> connected cs)"
  using cs
proof (induction cs rule: rev_induct)
  case Nil
  have "(\<exists>r. rooted (parent (new_DisjointSet n)) a r \<and> rooted (parent (new_DisjointSet n)) b r) \<longleftrightarrow> a = b"
    if "a < n" "b < n" for a b
    using new_rooted [OF n that(1)] new_rooted [OF n that(2)] by (auto dest: rooted_fun)
  then show ?case
    by (simp add: forest_new connected_def) (simp add: new_DisjointSet_def)
next
  case (snoc c cs)
  obtain i j where c: "c = (i, j)" by (cases c)
  from snoc.prems c have ij: "i < n" "j < n" and cs': "list_all (\<lambda>c. fst c < n \<and> snd c < n) cs"
    by auto
  from snoc.IH [OF cs'] obtain s where
    u: "unions (new_DisjointSet n) cs = Some s" and f: "forest s" and l: "ds_length s = n" and
    inv: "\<forall>a<n. \<forall>b<n. (\<exists>r. rooted (parent s) a r \<and> rooted (parent s) b r) \<longleftrightarrow> (a, b) \<in> connected cs"
    by blast
  from ij l have ij': "i < ds_length s" "j < ds_length s" by auto
  from forest_union [OF f ij'] obtain ri rj s' where
    un: "union_ds s i j = Some s'" and ri: "rooted (parent s) i ri" and rj: "rooted (parent s) j rj" and
    f': "forest s'" and l': "ds_length s' = ds_length s" and
    link: "\<forall>k rk. rooted (parent s) k rk \<longrightarrow> rooted (parent s') k (if rk = ri then rj else rk)"
    by blast
  have u': "unions (new_DisjointSet n) (cs @ [c]) = Some s'"
    by (simp add: unions_append u c un)
  have "(\<exists>r. rooted (parent s') a r \<and> rooted (parent s') b r) \<longleftrightarrow> (a, b) \<in> connected (cs @ [c])"
    if ab: "a < n" "b < n" for a b
  proof -
    from f l ab obtain ra rb where ra: "rooted (parent s) a ra" and rb: "rooted (parent s) b rb"
      by (auto simp: forest_iff) blast
    from link ra have ra': "rooted (parent s') a (if ra = ri then rj else ra)" by blast
    from link rb have rb': "rooted (parent s') b (if rb = ri then rj else rb)" by blast
    have same: "(\<exists>r. rooted (parent s) x r \<and> rooted (parent s) y r) \<longleftrightarrow> rx = ry"
      if "rooted (parent s) x rx" "rooted (parent s) y ry" for x y rx ry
      using that by (auto dest: rooted_fun)
    have "(\<exists>r. rooted (parent s') a r \<and> rooted (parent s') b r) \<longleftrightarrow>
            (if ra = ri then rj else ra) = (if rb = ri then rj else rb)"
      using ra' rb' by (auto dest: rooted_fun)
    also have "\<dots> \<longleftrightarrow> ra = rb \<or> (ra = ri \<and> rj = rb) \<or> (ra = rj \<and> ri = rb)"
      by auto
    also have "\<dots> \<longleftrightarrow> (a, b) \<in> connected cs \<or> ((a, i) \<in> connected cs \<and> (j, b) \<in> connected cs) \<or>
                 ((a, j) \<in> connected cs \<and> (i, b) \<in> connected cs)"
      using inv ab ij same [OF ra rb] same [OF ra ri] same [OF rj rb] same [OF ra rj] same [OF ri rb]
      by simp
    also have "\<dots> \<longleftrightarrow> (a, b) \<in> connected (cs @ [c])"
      unfolding c by (rule connected_snoc [symmetric])
    finally show ?thesis .
  qed
  with u' f' l' l show ?case by auto
qed



lemma new_nth: "k < n \<Longrightarrow> parent (new_DisjointSet n) ! k = k mod 4294967296"
  by (simp add: new_DisjointSet_def)

lemma new_length: "length (parent (new_DisjointSet n)) = n" "ds_length (new_DisjointSet n) = n"
  by (simp_all add: new_DisjointSet_def)

lemma new_wraps:
  assumes n: "4294967296 < n"
  shows "same_rep (new_DisjointSet n) 0 4294967296 = Some True"
proof -
  let ?s = "new_DisjointSet n"
  let ?N = "4294967296 :: nat"
  from n have z: "(0::nat) < n" by linarith
  have p0: "parent ?s ! 0 = 0" using new_nth [OF z] by simp
  have r0: "rooted (parent ?s) 0 0"
    by (rule rooted.rooted_self) (simp_all only: new_length z p0)
  have pN: "parent ?s ! ?N = 0" using new_nth [OF n] by simp
  have rN: "rooted (parent ?s) ?N 0"
  proof (rule rooted.rooted_up)
    show "?N < length (parent ?s)" using n by (simp only: new_length)
    show "parent ?s ! ?N \<noteq> ?N" unfolding pN by simp
    show "rooted (parent ?s) (parent ?s ! ?N) 0" unfolding pN by (rule r0)
  qed
  have ex: "\<exists>r. rooted (parent ?s) 0 r \<and> rooted (parent ?s) ?N r"
    using r0 rN by blast
  have "same_rep ?s 0 ?N = Some (\<exists>r. rooted (parent ?s) 0 r \<and> rooted (parent ?s) ?N r)"
    by (rule same_rep_forest [OF forest_new]) (simp_all only: new_length z n)
  with ex show ?thesis by simp
qed



lemma finds_eval: "finds \<lparr>ds_length = 3, parent = [1, 2, 2]\<rparr> [0] = Some \<lparr>ds_length = 3, parent = [2, 2, 2]\<rparr>"
  by (simp add: find_ds.simps to_uint32_def)


text \<open>The method on a bounded call stack.\<close>

lemma find_stack_ds: "find_stack frames s i = Inr x \<Longrightarrow> find_ds s i = Some x"
proof (induction frames arbitrary: s i x)
  case 0
  then show ?case by simp
next
  case (Suc frames)
  show ?case
  proof (cases "i < length (parent s)")
    case False
    with Suc.prems show ?thesis
      by (subst find_ds.simps) (simp split: if_splits)
  next
    case True
    show ?thesis
    proof (cases "parent s ! i = i")
      case True
      with \<open>i < length (parent s)\<close> Suc.prems show ?thesis
        by (subst find_ds.simps) simp
    next
      case False
      with True Suc.prems obtain r s' where
        a: "find_stack frames s (parent s ! i) = Inr (r, s')" and
        x: "x = (r, s'\<lparr>parent := (parent s')[i := to_uint32 r]\<rparr>)"
        by (auto split: sum.splits)
      from Suc.IH [OF a] have "find_ds s (parent s ! i) = Some (r, s')" .
      with True False x show ?thesis
        by (subst find_ds.simps) simp
    qed
  qed
qed

lemma union_stack_ds: "union_stack frames s i j = Inr s' \<Longrightarrow> union_ds s i j = Some s'"
  by (cases frames) (auto simp: union_ds_def split: sum.splits dest!: find_stack_ds)

lemma unions_stack_ds: "unions_stack frames s cs = Inr s' \<Longrightarrow> unions s cs = Some s'"
  by (induction cs arbitrary: s) (auto split: sum.splits dest!: union_stack_ds)

lemma same_rep_stack_ds: "same_rep_stack frames s i j = Inr b \<Longrightarrow> same_rep s i j = Some b"
  by (auto simp: same_rep_stack_def same_rep_def split: sum.splits dest!: find_stack_ds)

lemma unions_stack_append:
  "unions_stack frames s (cs @ ds) =
     (case unions_stack frames s cs of Inl e \<Rightarrow> Inl e | Inr s' \<Rightarrow> unions_stack frames s' ds)"
  by (induction cs arbitrary: s) (auto split: sum.splits)

lemma rooted_depth: "rooted p i r \<Longrightarrow> \<exists>d. rooted_in p i r d"
  by (induction rule: rooted.induct) (auto intro: rooted_in.intros)

lemma rooted_in_fun: "rooted_in p i r d \<Longrightarrow> rooted_in p i r' d' \<Longrightarrow> d = d'"
proof (induction arbitrary: r' d' rule: rooted_in.induct)
  case (rooted_in_self i)
  from rooted_in_self.prems rooted_in_self.hyps show ?case by (cases rule: rooted_in.cases) auto
next
  case (rooted_in_up i r d)
  from rooted_in_up.prems rooted_in_up.hyps(1,2) obtain e where
    "d' = Suc e" "rooted_in p (p ! i) r' e" by (cases rule: rooted_in.cases) auto
  with rooted_in_up.IH show ?case by auto
qed

lemma rooted_in_below: "rooted_in p i r d \<Longrightarrow> e \<le> d \<Longrightarrow> \<exists>x. x < length p \<and> rooted_in p x r e"
proof (induction rule: rooted_in.induct)
  case (rooted_in_self i)
  then show ?case by (auto intro: rooted_in.rooted_in_self)
next
  case (rooted_in_up i r d)
  show ?case
  proof (cases "e = Suc d")
    case True
    with rooted_in_up.hyps show ?thesis by (auto intro: rooted_in.rooted_in_up)
  next
    case False
    with rooted_in_up.prems have "e \<le> d" by simp
    then show ?thesis by (rule rooted_in_up.IH)
  qed
qed

lemma rooted_in_depth:
  assumes r: "rooted_in p i r d"
  shows "d < length p"
proof -
  have "\<forall>e\<in>{..d}. \<exists>x. x < length p \<and> rooted_in p x r e"
    using rooted_in_below [OF r] by simp
  then obtain f where f: "\<forall>e\<in>{..d}. f e < length p \<and> rooted_in p (f e) r e"
    by (rule bchoice [THEN exE])
  have inj: "inj_on f {..d}"
  proof (rule inj_onI)
    fix a b
    assume a: "a \<in> {..d}" and b: "b \<in> {..d}" and e: "f a = f b"
    from f a have "rooted_in p (f a) r a" by blast
    moreover from f b e have "rooted_in p (f a) r b" by simp
    ultimately show "a = b" by (rule rooted_in_fun)
  qed
  have sub: "f ` {..d} \<subseteq> {..<length p}" using f by auto
  have "card {..d} = card (f ` {..d})" using inj by (simp add: card_image)
  also have "\<dots> \<le> card {..<length p}" using sub by (intro card_mono) simp_all
  finally show ?thesis by simp
qed

lemma find_stack_rooted_aux:
  "rooted_in p i r d \<Longrightarrow> p = parent s \<Longrightarrow> d < frames \<Longrightarrow> \<exists>x. find_stack frames s i = Inr x"
proof (induction arbitrary: frames rule: rooted_in.induct)
  case (rooted_in_self i)
  then obtain k where "frames = Suc k" by (cases frames) auto
  with rooted_in_self show ?case by simp
next
  case (rooted_in_up i r d)
  from rooted_in_up.prems obtain k where k: "frames = Suc k" "d < k" by (cases frames) auto
  from rooted_in_up.IH [OF rooted_in_up.prems(1) k(2)] obtain x where
    "find_stack k s (p ! i) = Inr x" by blast
  with rooted_in_up.hyps(1,2) rooted_in_up.prems(1) k show ?case
    by (cases x) simp
qed

lemma find_stack_forest:
  assumes f: "forest s" and i: "i < ds_length s" and k: "ds_length s \<le> frames"
  shows "\<exists>r s'. find_stack frames s i = Inr (Some r, s') \<and> forest s' \<and> ds_length s' = ds_length s \<and>
           (\<forall>k r'. rooted (parent s') k r' \<longleftrightarrow> rooted (parent s) k r')"
proof -
  from f i obtain r where "rooted (parent s) i r" by (auto simp: forest_iff)
  then obtain d where d: "rooted_in (parent s) i r d" by (blast dest: rooted_depth)
  from rooted_in_depth [OF d] f k have "d < frames" by (simp add: forest_iff)
  from find_stack_rooted_aux [OF d refl this] obtain x where x: "find_stack frames s i = Inr x" by blast
  from find_stack_ds [OF x] forest_find [OF f i] x show ?thesis by auto
qed

lemma same_rep_stack_forest:
  assumes f: "forest s" and i: "i < ds_length s" and j: "j < ds_length s" and k: "ds_length s \<le> frames"
  shows "\<exists>b. same_rep_stack frames s i j = Inr b"
proof -
  from find_stack_forest [OF f i k] obtain ri s1 where
    f1: "find_stack frames s i = Inr (Some ri, s1)" and fs1: "forest s1" and l1: "ds_length s1 = ds_length s"
    by blast
  from j k l1 have "j < ds_length s1" "ds_length s1 \<le> frames" by simp_all
  from find_stack_forest [OF fs1 this] obtain rj s2 where
    "find_stack frames s1 j = Inr (Some rj, s2)" by blast
  with f1 show ?thesis by (simp add: same_rep_stack_def)
qed

lemma union_stack_forest:
  assumes f: "forest s" and i: "i < ds_length s" and j: "j < ds_length s" and k: "ds_length s < frames"
  shows "\<exists>s'. union_stack frames s i j = Inr s'"
proof -
  from k obtain m where m: "frames = Suc m" "ds_length s \<le> m" by (cases frames) auto
  from find_stack_forest [OF f i m(2)] obtain ri s1 where
    f1: "find_stack m s i = Inr (Some ri, s1)" and fs1: "forest s1" and l1: "ds_length s1 = ds_length s"
    by blast
  from j m l1 have "j < ds_length s1" "ds_length s1 \<le> m" by simp_all
  from find_stack_forest [OF fs1 this] obtain rj s2 where
    "find_stack m s1 j = Inr (Some rj, s2)" by blast
  with f1 m show ?thesis by simp
qed

lemma unions_stack_returns:
  assumes n: "n \<le> 4294967296" and cs: "list_all (\<lambda>c. fst c < n \<and> snd c < n) cs" and k: "n < frames"
  shows "\<exists>s. unions_stack frames (new_DisjointSet n) cs = Inr s"
  using cs
proof (induction cs rule: rev_induct)
  case Nil
  then show ?case by simp
next
  case (snoc c cs)
  from snoc.prems have c: "fst c < n" "snd c < n" and cs': "list_all (\<lambda>c. fst c < n \<and> snd c < n) cs"
    by auto
  from snoc.IH [OF cs'] obtain s where s: "unions_stack frames (new_DisjointSet n) cs = Inr s" by blast
  from unions_inv [OF n cs'] unions_stack_ds [OF s] have f: "forest s" and l: "ds_length s = n" by auto
  from c k l have "fst c < ds_length s" "snd c < ds_length s" "ds_length s < frames" by simp_all
  from union_stack_forest [OF f this] obtain s' where "union_stack frames s (fst c) (snd c) = Inr s'"
    by blast
  with s show ?case by (simp add: unions_stack_append)
qed

lemma new_small:
  assumes "n \<le> 4294967296"
  shows "new_DisjointSet n = chained n 0"
proof -
  have "map (\<lambda>i. i mod 4294967296) [0..<n] = map (\<lambda>i. if i < 0 then Suc i else i) [0..<n]"
    using assms by (intro map_cong) simp_all
  then show ?thesis by (simp add: new_DisjointSet_def chained_def)
qed

lemma chained_nth: "i < n \<Longrightarrow> parent (chained n m) ! i = (if i < m then Suc i else i)"
  by (simp add: chained_def)

lemma chained_length: "length (parent (chained n m)) = n"
  by (simp add: chained_def)

lemma chained_link:
  assumes "m < n" and "Suc m < 4294967296"
  shows "store_parent (chained n m) (Some m) (Some (Suc m)) = chained n (Suc m)"
proof -
  have "(map (\<lambda>i. if i < m then Suc i else i) [0..<n])[m := Suc m] =
          map (\<lambda>i. if i < Suc m then Suc i else i) [0..<n]"
  proof (rule nth_equalityI)
    show "length ((map (\<lambda>i. if i < m then Suc i else i) [0..<n])[m := Suc m]) =
            length (map (\<lambda>i. if i < Suc m then Suc i else i) [0..<n])" by simp
  next
    fix i
    assume "i < length ((map (\<lambda>i. if i < m then Suc i else i) [0..<n])[m := Suc m])"
    then have i: "i < n" by simp
    show "(map (\<lambda>i. if i < m then Suc i else i) [0..<n])[m := Suc m] ! i =
            map (\<lambda>i. if i < Suc m then Suc i else i) [0..<n] ! i"
    proof (cases "i = m")
      case True
      with i show ?thesis by simp
    next
      case False
      with i show ?thesis by (simp add: less_Suc_eq)
    qed
  qed
  with assms show ?thesis by (simp add: store_parent_def chained_def to_uint32_def)
qed

lemma chain_union:
  assumes "Suc m < n" and "n \<le> 4294967296"
  shows "union_stack (Suc (Suc k)) (chained n m) m (Suc m) = Inr (chained n (Suc m))"
proof -
  from assms have m: "m < n" "Suc m < 4294967296" by simp_all
  from assms have "find_stack (Suc k) (chained n m) m = Inr (Some m, chained n m)"
    by (simp add: chained_nth chained_length)
  moreover from assms have "find_stack (Suc k) (chained n m) (Suc m) = Inr (Some (Suc m), chained n m)"
    by (simp add: chained_nth chained_length)
  ultimately show ?thesis by (simp add: chained_link [OF m])
qed

lemma chain_unions:
  assumes n: "n \<le> 4294967296"
  shows "m < n \<Longrightarrow> unions_stack (Suc (Suc k)) (new_DisjointSet n) (chain m) = Inr (chained n m)"
proof (induction m)
  case 0
  then show ?case by (simp add: chain_def new_small [OF n])
next
  case (Suc m)
  then have "unions_stack (Suc (Suc k)) (new_DisjointSet n) (chain m) = Inr (chained n m)" by simp
  moreover have "chain (Suc m) = chain m @ [(m, Suc m)]" by (simp add: chain_def)
  ultimately show ?case
    using chain_union [OF Suc.prems n, of k] by (simp add: unions_stack_append)
qed

lemma chain_overflow: "m < n \<Longrightarrow> i + frames \<le> m \<Longrightarrow> find_stack frames (chained n m) i = Inl RangeError"
proof (induction frames arbitrary: i)
  case 0
  then show ?case by simp
next
  case (Suc frames)
  from Suc.prems have i: "i < m" "i < n" by simp_all
  from Suc.prems have "Suc i + frames \<le> m" by simp
  from Suc.IH [OF Suc.prems(1) this] i show ?case
    by (simp add: chained_nth chained_length)
qed

lemma chain_connected: "j \<le> m \<Longrightarrow> (0, j) \<in> connected (chain m)"
proof (induction j)
  case 0
  show ?case by (rule connected_refl)
next
  case (Suc j)
  then have a: "(0, j) \<in> connected (chain m)" by simp
  from Suc.prems have "(j, Suc j) \<in> set (chain m)" by (auto simp: chain_def)
  then have "(j, Suc j) \<in> connected (chain m)" by (auto simp: connected_def)
  with a show ?case by (rule connected_trans)
qed

text \<open>
  Claim C9, as amended. On a new DisjointSet of length \<open>n \<le> 2^32\<close> (every index then fits
  its 32-bit cell), after a sequence of \<open>union\<close> calls with indices below \<open>n\<close>: whenever
  the calls and the test \<open>find(i) == find(j)\<close> return, the test is true exactly when \<open>i\<close>
  and \<open>j\<close> are connected by the reflexive, symmetric, transitive closure of the pairs
  passed to \<open>union\<close>; and they all return when the call stack has room for more than \<open>n\<close>
  nested calls. On a smaller stack a call can throw a RangeError.
\<close>

theorem union_find_connected:
  assumes "n \<le> 4294967296" and "list_all (\<lambda>c. fst c < n \<and> snd c < n) cs" and "i < n" and "j < n"
  shows "(unions_stack frames (new_DisjointSet n) cs = Inr s \<and> same_rep_stack frames s i j = Inr b \<longrightarrow>
            b = ((i, j) \<in> connected cs)) \<and>
         (n < frames \<longrightarrow>
            (\<exists>s. unions_stack frames (new_DisjointSet n) cs = Inr s \<and>
                 same_rep_stack frames s i j = Inr ((i, j) \<in> connected cs)))"
proof -
  from unions_inv [OF assms(1,2)] obtain s0 where
    u: "unions (new_DisjointSet n) cs = Some s0" and f: "forest s0" and l: "ds_length s0 = n" and
    inv: "\<forall>a<n. \<forall>b<n. (\<exists>r. rooted (parent s0) a r \<and> rooted (parent s0) b r) \<longleftrightarrow> (a, b) \<in> connected cs"
    by blast
  from same_rep_forest [OF f, of i j] l assms(3,4) inv
  have sr: "same_rep s0 i j = Some ((i, j) \<in> connected cs)" by simp
  have right: "b' = ((i, j) \<in> connected cs)"
    if "unions_stack frames (new_DisjointSet n) cs = Inr s'" "same_rep_stack frames s' i j = Inr b'" for s' b'
    using unions_stack_ds [OF that(1)] same_rep_stack_ds [OF that(2)] u sr by simp
  have ret: "\<exists>s. unions_stack frames (new_DisjointSet n) cs = Inr s \<and>
                 same_rep_stack frames s i j = Inr ((i, j) \<in> connected cs)" if k: "n < frames"
  proof -
    from unions_stack_returns [OF assms(1,2) k] obtain s' where
      s': "unions_stack frames (new_DisjointSet n) cs = Inr s'" by blast
    from unions_stack_ds [OF s'] u have e: "s' = s0" by simp
    from k l have "ds_length s0 \<le> frames" by simp
    from same_rep_stack_forest [OF f _ _ this, of i j] l assms(3,4) obtain b' where
      b': "same_rep_stack frames s0 i j = Inr b'" by auto
    from right [OF s' b' [folded e]] s' b' e show ?thesis by auto
  qed
  from right ret show ?thesis by blast
qed

lemma stack_eval:
  "unions_stack 4 (new_DisjointSet 3) [(0, 1)] = Inr \<lparr>ds_length = 3, parent = [1, 1, 2]\<rparr>"
proof -
  have k: "(4::nat) = Suc (Suc (Suc (Suc 0)))" by simp
  show ?thesis
    unfolding k by (simp add: new_DisjointSet_def upt_conv_Cons store_parent_def to_uint32_def)
qed


theorem union_find_connected_witness:
  "same_rep_stack 4 \<lparr>ds_length = 3, parent = [1, 1, 2]\<rparr> 0 1 = Inr True \<and>
   same_rep_stack 4 \<lparr>ds_length = 3, parent = [1, 1, 2]\<rparr> 0 2 = Inr False"
proof -
  have a: "(0::nat, 1::nat) \<in> connected [(0, 1)]" by (auto simp: connected_def)
  have b: "(0::nat, 2::nat) \<notin> connected [(0, 1)]"
    using connected_snoc [of 0 2 "[]" 0 1] by (simp add: connected_def)
  show ?thesis
    using union_find_connected [of 3 "[(0, 1)]" 0 1 4] union_find_connected [of 3 "[(0, 1)]" 0 2 4] a b
    unfolding stack_eval by simp
qed

text \<open>
  \<open>find\<close> does not always return: after \<open>union(k, k + 1)\<close> for every \<open>k < 99999\<close> on a set
  of length 100000 the cells form one chain, the unions have each nested one \<open>find\<close> only,
  and \<open>find(0)\<close> nests 100000 calls. On a stack with room for 10000 calls the test
  \<open>find(0) == find(99999)\<close> throws a RangeError, although 0 and 99999 are connected.
\<close>

theorem find_overflow_counterexample:
  "unions_stack 10000 (new_DisjointSet 100000) (chain 99999) = Inr (chained 100000 99999) \<and>
   same_rep_stack 10000 (chained 100000 99999) 0 99999 = Inl RangeError \<and>
   (0, 99999) \<in> connected (chain 99999)"
proof -
  have k: "(10000::nat) = Suc (Suc 9998)" by simp
  have a: "unions_stack 10000 (new_DisjointSet 100000) (chain 99999) = Inr (chained 100000 99999)"
    unfolding k by (rule chain_unions) simp_all
  have "find_stack 10000 (chained 100000 99999) 0 = Inl RangeError"
    by (rule chain_overflow) simp_all
  then have b: "same_rep_stack 10000 (chained 100000 99999) 0 99999 = Inl RangeError"
    by (simp add: same_rep_stack_def)
  have c: "(0, 99999) \<in> connected (chain 99999)" by (rule chain_connected) simp
  from a b c show ?thesis by simp
qed



section \<open>Proofs: mergeRectangles\<close>

lemma intersectRect_boxes:
  "intersectRect (rect_x r1) (rect_y r1) (rect_x r1 + rect_width r1) (rect_y r1 + rect_height r1)
     (rect_x r2) (rect_y r2) (rect_x r2 + rect_width r2) (rect_y r2 + rect_height r2) =
   boxes_intersect r1 r2"
  by (auto simp: intersectRect_def boxes_intersect_def)

lemma merge_pair_eq:
  "merge_pair rects ds i j =
     (if should_union (rects ! i) (rects ! j) then union_ds ds i j else Some ds)"
proof -
  let ?r1 = "rects ! i" and ?r2 = "rects ! j"
  let ?x1 = "max (rect_x ?r1) (rect_x ?r2)" and ?y1 = "max (rect_y ?r1) (rect_y ?r2)"
  let ?x2 = "min (rect_x ?r1 + rect_width ?r1) (rect_x ?r2 + rect_width ?r2)"
  let ?y2 = "min (rect_y ?r1 + rect_height ?r1) (rect_y ?r2 + rect_height ?r2)"
  have ia: "intersection_area ?r1 ?r2 = js_mul (Num (- (?x1 - ?x2))) (Num (- (?y1 - ?y2)))"
    by (simp add: intersection_area_def)
  show ?thesis
    unfolding merge_pair_def Let_def intersectRect_boxes should_union_def ia ratio_neg_neg
      rect_area_def REGIONS_OVERLAP_def
    by simp
qed

lemma merge_inner_eq:
  "merge_inner rects i j ds =
     unions ds (map (Pair i) (filter (\<lambda>j. should_union (rects ! i) (rects ! j)) [j..<length rects]))"
proof (induction rects i j ds rule: merge_inner.induct)
  case (1 rects i j ds)
  show ?case
  proof (cases "j < length rects")
    case False
    then show ?thesis by (subst merge_inner.simps) simp
  next
    case True
    then have upt: "[j..<length rects] = j # [j + 1..<length rects]" by (simp add: upt_conv_Cons)
    show ?thesis
    proof (cases "merge_pair rects ds i j")
      case None
      with True show ?thesis
        by (subst merge_inner.simps) (auto simp: upt merge_pair_eq split: if_splits)
    next
      case (Some ds')
      with True "1.IH" [OF True Some] show ?thesis
        by (subst merge_inner.simps) (auto simp: upt merge_pair_eq split: if_splits)
    qed
  qed
qed

lemma merge_outer_eq:
  "merge_outer rects i ds =
     unions ds (concat (map (\<lambda>i. map (Pair i) (filter (\<lambda>j. should_union (rects ! i) (rects ! j)) [0..<length rects]))
                  [i..<length rects]))"
proof (induction rects i ds rule: merge_outer.induct)
  case (1 rects i ds)
  show ?case
  proof (cases "i < length rects")
    case False
    then show ?thesis by (subst merge_outer.simps) simp
  next
    case True
    then have upt: "[i..<length rects] = i # [i + 1..<length rects]" by (simp add: upt_conv_Cons)
    show ?thesis
    proof (cases "merge_inner rects i 0 ds")
      case None
      with True show ?thesis
        by (subst merge_outer.simps) (simp add: upt unions_append merge_inner_eq [symmetric])
    next
      case (Some ds')
      with True "1.IH" [OF True Some] show ?thesis
        by (subst merge_outer.simps) (simp add: upt unions_append merge_inner_eq [symmetric])
    qed
  qed
qed

lemma filter_product:
  "filter P (List.product xs ys) = concat (map (\<lambda>x. map (Pair x) (filter (\<lambda>y. P (x, y)) ys)) xs)"
  by (induction xs) (simp_all add: filter_map comp_def)



text \<open>
  Claim C6, as amended. For the raw rectangles \<open>{x:0, y:0, width:10, height:10}\<close> and
  \<open>{x:5, y:5, width:10, height:10}\<close> the merger returns two rectangles, each with
  \<open>total = 1\<close> and the coordinates and size of its input: the intersection has area 25,
  both ratios are 25 / (100 * (100 / 100)) = 0.25, below 0.5, so no union is made.
\<close>

theorem scenario_B_not_merged:
  "mergeRectangles [scenario_B_first, scenario_B_second] =
     Some (Inr [scenario_B_first\<lparr>rect_total := 1\<rparr>, scenario_B_second\<lparr>rect_total := 1\<rparr>])"
  by (simp add: mergeRectangles_def scenario_B_first_def scenario_B_second_def new_DisjointSet_def
      merge_pair_def intersectRect_def Let_def Num_def js_mul_def js_div_def js_ge_def js_lt_def
      REGIONS_OVERLAP_def is_zero_def is_inf_def fin_of_def zero_of_def inf_of_def union_ds_def
      find_ds.simps merge_inner.simps merge_outer.simps group_loop.simps store_parent_def
      to_uint32_def group_add_def List.map_filter_def group_rect_def
      rounded_mean_def js_add_def trunc_def wrap32_def upt_conv_Cons)

text \<open>The claim as stated (one rectangle, \<open>total = 2\<close>, \<open>x\<close> and \<open>y\<close> 2 or 3) fails.\<close>

theorem scenario_B_counterexample:
  "\<not> scenario_B_expected (mergeRectangles [scenario_B_first, scenario_B_second])"
  by (simp add: mergeRectangles_def scenario_B_first_def scenario_B_second_def new_DisjointSet_def
      merge_pair_def intersectRect_def Let_def Num_def js_mul_def js_div_def js_ge_def js_lt_def
      REGIONS_OVERLAP_def is_zero_def is_inf_def fin_of_def zero_of_def inf_of_def union_ds_def
      find_ds.simps merge_inner.simps merge_outer.simps group_loop.simps store_parent_def
      to_uint32_def group_add_def List.map_filter_def group_rect_def
      rounded_mean_def js_add_def trunc_def wrap32_def upt_conv_Cons scenario_B_expected_def)

section \<open>Proofs: isTriviallyExcluded\<close>

lemma isTriviallyExcluded_density:
  "isTriviallyExcluded edgesDensity sobel i j width blockWidth blockHeight =
     js_lt (block_edge_density sobel width i j blockWidth blockHeight) edgesDensity"
proof -
  have "(i + blockHeight) * width + j = i * width + j + blockHeight * width"
       "(i + blockHeight) * width + (j + blockWidth) = i * width + j + blockHeight * width + blockWidth"
       "i * width + (j + blockWidth) = i * width + j + blockWidth"
    by (simp_all add: algebra_simps)
  then show ?thesis
    by (simp only: isTriviallyExcluded_def block_edge_density_def table_cell_def Let_def)
qed

section \<open>Proofs: evalStages\<close>

lemma f64_get_at: "k < length xs \<Longrightarrow> f64_get (pre @ xs @ post) (length pre + k) = xs ! k"
  by (simp add: f64_get_def nth_append)

lemma f64_get_out: "length a \<le> k \<Longrightarrow> f64_get a k = NaN"
  by (simp add: f64_get_def)

lemma rects_loop_encoded:
  assumes "env_data e = pre @ concat (map encode_rect rs) @ post"
  shows "rects_loop e tilted (Num (int (r + length rs))) r (length pre) acc =
           Some (length pre + 5 * length rs,
                 foldl js_add acc
                   (map (\<lambda>x. rect_sum e tilted (fr_x x) (fr_y x) (fr_width x) (fr_height x) (fr_weight x)) rs))"
  using assms
proof (induction rs arbitrary: pre r acc)
  case Nil
  show ?case by (subst rects_loop.simps) simp
next
  case (Cons x rs)
  let ?d = "env_data e"
  have d: "?d = pre @ encode_rect x @ (concat (map encode_rect rs) @ post)"
    using Cons.prems by simp
  have rd: "f64_get ?d (length pre) = fr_x x" "f64_get ?d (length pre + 1) = fr_y x"
    "f64_get ?d (length pre + 2) = fr_width x" "f64_get ?d (length pre + 3) = fr_height x"
    "f64_get ?d (length pre + 4) = fr_weight x"
    using f64_get_at [of 0 "encode_rect x" pre] f64_get_at [of 1 "encode_rect x" pre]
      f64_get_at [of 2 "encode_rect x" pre] f64_get_at [of 3 "encode_rect x" pre]
      f64_get_at [of 4 "encode_rect x" pre]
    unfolding d by (simp_all add: encode_rect_def)
  have d': "?d = (pre @ encode_rect x) @ concat (map encode_rect rs) @ post"
    using Cons.prems by simp
  have len: "length (pre @ encode_rect x) = length pre + 5" by (simp add: encode_rect_def)
  from Cons.IH [OF d', of "r + 1", unfolded len]
  have ih: "\<And>acc. rects_loop e tilted (Num (int (r + 1 + length rs))) (r + 1) (length pre + 5) acc =
      Some (length pre + 5 + 5 * length rs,
            foldl js_add acc
              (map (\<lambda>x. rect_sum e tilted (fr_x x) (fr_y x) (fr_width x) (fr_height x) (fr_weight x)) rs))"
    .
  have n: "Num (int (r + length (x # rs))) = Num (int (r + 1 + length rs))" by simp
  show ?case
    unfolding n
    apply (subst rects_loop.simps)
    apply (simp only: rd ih)
    apply simp
    done
qed

lemma nodes_loop_encoded:
  assumes "env_data e = pre @ concat (map encode_node ns) @ post"
  shows "nodes_loop e (Num (int (length ns))) (length pre) acc =
           Some (length pre + length (concat (map encode_node ns)),
                 foldl js_add acc (map (node_value e) ns))"
  using assms
proof (induction ns arbitrary: pre acc)
  case Nil
  show ?case by (subst nodes_loop.simps) simp
next
  case (Cons n ns)
  let ?d = "env_data e"
  let ?hd = "[node_tilted n, Num (int (length (node_rects n)))]"
  let ?rs = "concat (map encode_rect (node_rects n))"
  let ?tl = "[node_threshold n, node_left n, node_right n]"
  let ?rest = "concat (map encode_node ns) @ post"
  have d: "?d = pre @ ?hd @ (?rs @ ?tl @ ?rest)"
    using Cons.prems by (simp add: encode_node_def [of n])
  have rd: "f64_get ?d (length pre) = node_tilted n"
    "f64_get ?d (length pre + 1) = Num (int (length (node_rects n)))"
    using f64_get_at [of 0 ?hd pre] f64_get_at [of 1 ?hd pre] unfolding d by simp_all
  have d2: "?d = (pre @ ?hd) @ ?rs @ (?tl @ ?rest)" using d by simp
  have lrs: "length ?rs = 5 * length (node_rects n)"
    by (induction "node_rects n") (simp_all add: encode_rect_def length_concat comp_def sum_list_triv)
  have rl: "rects_loop e (node_tilted n) (Num (int (length (node_rects n)))) 0 (length pre + 2) (Fin 0) =
      Some (length pre + 2 + 5 * length (node_rects n), weighted_rect_sum e n)"
    using rects_loop_encoded [OF d2, of "node_tilted n" 0 "Fin 0"]
    by (simp add: weighted_rect_sum_def)
  let ?w' = "length pre + 2 + 5 * length (node_rects n)"
  have d3: "?d = (pre @ ?hd @ ?rs) @ ?tl @ ?rest" using d by simp
  have l3: "length (pre @ ?hd @ ?rs) = ?w'" by (simp add: lrs)
  have rd3: "f64_get ?d ?w' = node_threshold n" "f64_get ?d (?w' + 1) = node_left n"
    "f64_get ?d (?w' + 2) = node_right n"
    using f64_get_at [of 0 ?tl "pre @ ?hd @ ?rs" ?rest] f64_get_at [of 1 ?tl "pre @ ?hd @ ?rs" ?rest]
      f64_get_at [of 2 ?tl "pre @ ?hd @ ?rs" ?rest]
    unfolding d3 [symmetric] l3 by simp_all
  have d4: "?d = (pre @ encode_node n) @ concat (map encode_node ns) @ post"
    using Cons.prems by simp
  have l4: "length (pre @ encode_node n) = ?w' + 3" by (simp add: encode_node_def [of n] lrs)
  from Cons.IH [OF d4, unfolded l4]
  have ih: "\<And>acc. nodes_loop e (Num (int (length ns))) (?w' + 3) acc =
      Some (?w' + 3 + length (concat (map encode_node ns)), foldl js_add acc (map (node_value e) ns))"
    .
  have tot: "length pre + length (concat (map encode_node (n # ns))) =
      ?w' + 3 + length (concat (map encode_node ns))"
    by (simp add: encode_node_def [of n] lrs)
  have nz: "truthy (Num (int (length (n # ns))))" by simp
  have dec: "js_sub (Num (int (length (n # ns)))) (Fin 1) = Num (int (length ns))"
    using Num_dec [of "length ns"] by simp
  show ?case
    unfolding tot
    apply (subst nodes_loop.simps)
    apply (simp only: nz if_True Let_def rd rl option.case prod.case rd3 dec ih)
    apply (simp add: node_value_def)
    done
qed

lemma length_encode_stage: "2 \<le> length (encode_stage s)"
  by (simp add: encode_stage_def)

lemma stages_loop_step:
  assumes d: "env_data e = pre @ encode_stage s @ post"
  shows "stages_loop e (length pre) =
           (if stage_rejects e s then Some False else stages_loop e (length pre + length (encode_stage s)))"
proof -
  let ?d = "env_data e"
  let ?hd = "[stage_threshold s, Num (int (length (stage_nodes s)))]"
  let ?ns = "concat (map encode_node (stage_nodes s))"
  have d1: "?d = pre @ ?hd @ (?ns @ post)" using d by (simp add: encode_stage_def [of s])
  have rd: "f64_get ?d (length pre) = stage_threshold s"
    "f64_get ?d (length pre + 1) = Num (int (length (stage_nodes s)))"
    using f64_get_at [of 0 ?hd pre] f64_get_at [of 1 ?hd pre] unfolding d1 by simp_all
  have d2: "?d = (pre @ ?hd) @ ?ns @ post" using d1 by simp
  have nl: "nodes_loop e (Num (int (length (stage_nodes s)))) (length pre + 2) (Fin 0) =
      Some (length pre + 2 + length ?ns, stage_sum e s)"
    using nodes_loop_encoded [OF d2, of "Fin 0"] by (simp add: stage_sum_def)
  have lt: "length pre < length ?d" using d1 by simp
  have le: "length pre + length (encode_stage s) = length pre + 2 + length ?ns"
    by (simp add: encode_stage_def [of s])
  show ?thesis
    unfolding le
    apply (subst stages_loop.simps)
    apply (simp only: lt if_True Let_def rd nl option.case prod.case)
    apply (simp add: stage_rejects_def)
    done
qed

lemma stages_loop_encoded:
  assumes "env_data e = pre @ concat (map encode_stage ss) @ post"
  shows "stages_loop e (length pre) =
           (if list_all (\<lambda>s. \<not> stage_rejects e s) ss
            then stages_loop e (length pre + length (concat (map encode_stage ss)))
            else Some False)"
  using assms
proof (induction ss arbitrary: pre)
  case Nil
  show ?case by simp
next
  case (Cons s ss)
  have d1: "env_data e = pre @ encode_stage s @ (concat (map encode_stage ss) @ post)"
    using Cons.prems by simp
  have d2: "env_data e = (pre @ encode_stage s) @ concat (map encode_stage ss) @ post"
    using Cons.prems by simp
  from Cons.IH [OF d2] stages_loop_step [OF d1] show ?case
    by (simp add: add.assoc)
qed

lemma stages_loop_end: "length (env_data e) \<le> w \<Longrightarrow> stages_loop e w = Some True"
  by (subst stages_loop.simps) simp

lemma env_data_env [simp]:
  "env_data (evalStages_env data ii iis tii i j width bw bh scale) = data"
  by (simp add: evalStages_env_def Let_def)

lemma evalStages_encoded:
  "evalStages (encode_cascade mw mh stages) ii iis tii i j width bw bh scale =
     Some (list_all (\<lambda>s. \<not> stage_rejects
        (evalStages_env (encode_cascade mw mh stages) ii iis tii i j width bw bh scale) s) stages)"
proof -
  let ?e = "evalStages_env (encode_cascade mw mh stages) ii iis tii i j width bw bh scale"
  have d: "env_data ?e = [mw, mh] @ concat (map encode_stage stages) @ []"
    by (simp add: encode_cascade_def)
  have two: "length [mw, mh] = 2" by simp
  have "length (env_data ?e) \<le> 2 + length (concat (map encode_stage stages))"
    by (simp add: encode_cascade_def)
  from stages_loop_encoded [OF d, unfolded two] stages_loop_end [OF this] show ?thesis
    by (simp add: evalStages_def)
qed

lemma evalStages_short_circuit:
  assumes "list_all (\<lambda>s. \<not> stage_rejects
        (evalStages_env (encode_cascade mw mh (pre @ [bad]) @ rest) ii iis tii i j width bw bh scale) s) pre"
    and "stage_rejects
        (evalStages_env (encode_cascade mw mh (pre @ [bad]) @ rest) ii iis tii i j width bw bh scale) bad"
  shows "evalStages (encode_cascade mw mh (pre @ [bad]) @ rest) ii iis tii i j width bw bh scale = Some False"
proof -
  let ?e = "evalStages_env (encode_cascade mw mh (pre @ [bad]) @ rest) ii iis tii i j width bw bh scale"
  have d: "env_data ?e = [mw, mh] @ concat (map encode_stage pre) @ (encode_stage bad @ rest)"
    by (simp add: encode_cascade_def)
  have d2: "env_data ?e = ([mw, mh] @ concat (map encode_stage pre)) @ encode_stage bad @ rest"
    by (simp add: encode_cascade_def)
  have two: "length [mw, mh] = 2" by simp
  have l2: "length ([mw, mh] @ concat (map encode_stage pre)) = 2 + length (concat (map encode_stage pre))"
    by simp
  from stages_loop_encoded [OF d, unfolded two] stages_loop_step [OF d2, unfolded l2] assms show ?thesis
    by (simp only: evalStages_def if_True)
qed

lemma f64_get_out_add: "length a \<le> w \<Longrightarrow> f64_get a (w + k) = NaN"
  by (simp add: f64_get_def)

lemma nodes_loop_out_step:
  assumes le: "length (env_data e) \<le> w" and nz: "truthy n"
  shows "nodes_loop e n w acc = nodes_loop e (js_sub n (Fin 1)) (w + 2 + 3) NaN"
proof -
  have rl: "rects_loop e NaN NaN 0 (w + 2) (Fin 0) = Some (w + 2, Fin 0)"
    by (subst rects_loop.simps) (simp add: js_lt_def)
  have le2: "length (env_data e) \<le> w + 2" using le by simp
  have rd: "f64_get (env_data e) w = NaN" "f64_get (env_data e) (w + 1) = NaN"
    "f64_get (env_data e) (w + 2) = NaN" "f64_get (env_data e) (w + 2 + 1) = NaN"
    "f64_get (env_data e) (w + 2 + 2) = NaN"
    using f64_get_out_add [OF le, of 0] f64_get_out_add [OF le, of 1] f64_get_out_add [OF le2, of 0]
      f64_get_out_add [OF le2, of 1] f64_get_out_add [OF le2, of 2] by simp_all
  have c: "js_lt (js_mul (Fin 0) (env_inverseArea e)) (js_mul NaN (env_standardDeviation e)) = False"
    by (simp add: js_mul_def js_lt_def)
  have a: "js_add acc NaN = NaN" by (simp add: js_add_def)
  show ?thesis
    apply (subst nodes_loop.simps)
    apply (simp only: nz if_True Let_def rd rl option.case prod.case c if_False a)
    done
qed

lemma nodes_loop_out:
  assumes "length (env_data e) \<le> w"
  shows "nodes_loop e (Num (int (Suc k))) w acc = Some (w + 5 * Suc k, NaN)"
  using assms
proof (induction k arbitrary: w acc)
  case 0
  have fin: "nodes_loop e (Num 0) (w + 2 + 3) NaN = Some (w + 2 + 3, NaN)"
    by (subst nodes_loop.simps) simp
  have dec: "js_sub (Num (int (Suc 0))) (Fin 1) = Num 0" using Num_dec [of 0] by simp
  have nz: "truthy (Num (int (Suc 0)))" by simp
  show ?case
    unfolding nodes_loop_out_step [OF 0 nz] dec fin by simp
next
  case (Suc k)
  have le: "length (env_data e) \<le> w + 2 + 3" using Suc.prems by simp
  have dec: "js_sub (Num (int (Suc (Suc k)))) (Fin 1) = Num (int (Suc k))" by (rule Num_dec)
  have nz: "truthy (Num (int (Suc (Suc k))))" by simp
  show ?case
    unfolding nodes_loop_out_step [OF Suc.prems nz] dec Suc.IH [OF le] by simp
qed

lemma evalStages_truncated:
  "evalStages (encode_cascade mw mh stages @ [thr, Num (int (Suc k))]) ii iis tii i j width bw bh scale =
     Some (list_all (\<lambda>s. \<not> stage_rejects
        (evalStages_env (encode_cascade mw mh stages @ [thr, Num (int (Suc k))]) ii iis tii i j width bw bh scale) s)
        stages)"
proof -
  let ?data = "encode_cascade mw mh stages @ [thr, Num (int (Suc k))]"
  let ?e = "evalStages_env ?data ii iis tii i j width bw bh scale"
  let ?w = "2 + length (concat (map encode_stage stages))"
  have two: "length [mw, mh] = 2" by simp
  have d: "env_data ?e = [mw, mh] @ concat (map encode_stage stages) @ [thr, Num (int (Suc k))]"
    by (simp add: encode_cascade_def)
  have len: "length (env_data ?e) = ?w + 2" by (simp add: encode_cascade_def)
  have rd: "f64_get (env_data ?e) ?w = thr" "f64_get (env_data ?e) (?w + 1) = Num (int (Suc k))"
    using f64_get_at [of 0 "[thr, Num (int (Suc k))]" "[mw, mh] @ concat (map encode_stage stages)" "[]"]
      f64_get_at [of 1 "[thr, Num (int (Suc k))]" "[mw, mh] @ concat (map encode_stage stages)" "[]"]
    by (simp_all add: encode_cascade_def)
  have nl: "nodes_loop ?e (Num (int (Suc k))) (?w + 2) (Fin 0) = Some (?w + 2 + 5 * Suc k, NaN)"
    by (rule nodes_loop_out) (simp add: encode_cascade_def)
  have fin: "stages_loop ?e (?w + 2 + 5 * Suc k) = Some True"
    by (rule stages_loop_end) (simp add: encode_cascade_def)
  have lt: "?w < length (env_data ?e)" by (simp add: encode_cascade_def)
  have last: "stages_loop ?e ?w = Some True"
    apply (subst stages_loop.simps)
    apply (simp only: lt if_True Let_def rd nl option.case prod.case fin)
    apply (simp add: js_lt_def)
    done
  from stages_loop_encoded [OF d, unfolded two] last show ?thesis
    by (simp add: evalStages_def)
qed

section \<open>Proofs: the scan loops\<close>

lemma scan_state_visits_update:
  "st\<lparr>st_visits := x\<rparr> = \<lparr>st_rects = st_rects st, st_visits = x\<rparr>"
  by (cases st) simp

lemma cols_loop_unfold:
  "cols_loop d scale bw bh step i j st =
     (if j < det_width d - bw then
        (case visit_window d scale bw bh i j of
           None \<Rightarrow> None
         | Some v \<Rightarrow> cols_loop d scale bw bh step i (j + step) (push_visit st v))
      else Some st)"
  apply (subst cols_loop.simps)
  apply (simp add: visit_window_def push_visit_def rect_of_visit_def Let_def scan_state_visits_update
      split: option.splits)
  done

lemma cols_run_loop:
  "cols_run d scale bw bh step i j st st' \<Longrightarrow> cols_loop d scale bw bh step i j st = Some st'"
  by (induction rule: cols_run.induct) (simp_all add: cols_loop_unfold)

lemma cols_loop_run:
  "cols_loop d scale bw bh step i j st = Some st' \<Longrightarrow> cols_run d scale bw bh step i j st st'"
proof (induction rule: cols_loop.raw_induct [rotated 1, consumes 1])
  case (1 f d scale bw bh step i j st st')
  show ?case
  proof (cases "j < det_width d - bw")
    case False
    with 1(2) show ?thesis by (auto intro: cols_done)
  next
    case True
    let ?pruned = "(if js_gt (det_edgesDensity d) (Fin 0) then
               (case det_integralImageSobel d of
                  None \<Rightarrow> None
                | Some integralImageSobel \<Rightarrow>
                    Some (isTriviallyExcluded (det_edgesDensity d) integralImageSobel i j (det_width d) bw bh))
             else None)"
    show ?thesis
    proof (cases "?pruned = Some True")
      case p: True
      then have vw: "visit_window d scale bw bh i j = Some (Visit i j bw bh ?pruned None)"
        by (simp add: visit_window_def Let_def)
      have pv: "push_visit st (Visit i j bw bh ?pruned None) =
          st\<lparr>st_visits := st_visits st @ [Visit i j bw bh ?pruned None]\<rparr>"
        by (simp add: push_visit_def scan_state_visits_update)
      from 1(2) True p have "f d scale bw bh step i (j + step)
          (st\<lparr>st_visits := st_visits st @ [Visit i j bw bh ?pruned None]\<rparr>) = Some st'"
        by (simp add: Let_def)
      from 1(1) [OF this] show ?thesis
        unfolding pv [symmetric] by (rule cols_step [OF True vw])
    next
      case np: False
      from 1(2) True np obtain accepted where
        ev: "evalStages (det_data d) (det_integralImage d) (det_integralImageSquare d)
                (det_tiltedIntegralImage d) i j (det_width d) bw bh scale = Some accepted"
        by (auto simp: Let_def split: option.splits)
      let ?v = "Visit i j bw bh ?pruned (Some accepted)"
      have vw: "visit_window d scale bw bh i j = Some ?v"
        using np ev by (simp add: visit_window_def Let_def)
      have pv: "push_visit st ?v =
          \<lparr>st_rects =
             (if accepted then
                st_rects st @ [\<lparr>rect_x = j, rect_y = i, rect_width = bw, rect_height = bh, rect_total = 0\<rparr>]
              else st_rects st),
           st_visits = st_visits st @ [?v]\<rparr>"
        by (simp add: push_visit_def rect_of_visit_def)
      from 1(2) True np ev have "f d scale bw bh step i (j + step) (push_visit st ?v) = Some st'"
        unfolding pv by (simp add: Let_def)
      from 1(1) [OF this] show ?thesis by (rule cols_step [OF True vw])
    qed
  qed
qed

lemma rows_run_loop:
  "rows_run d scale bw bh step i st st' \<Longrightarrow> rows_loop d scale bw bh step i st = Some st'"
proof (induction rule: rows_run.induct)
  case (rows_done i st)
  then show ?case by (subst rows_loop.simps) simp
next
  case (rows_step i st st1 st')
  then show ?case by (subst rows_loop.simps) (simp add: cols_run_loop)
qed

lemma rows_loop_run:
  "rows_loop d scale bw bh step i st = Some st' \<Longrightarrow> rows_run d scale bw bh step i st st'"
proof (induction rule: rows_loop.raw_induct [rotated 1, consumes 1])
  case (1 f d scale bw bh step i st st')
  show ?case
  proof (cases "i < det_height d - bh")
    case False
    with 1(2) show ?thesis by (auto intro: rows_done)
  next
    case True
    with 1(2) obtain st1 where c: "cols_loop d scale bw bh step i 0 st = Some st1"
      and r: "f d scale bw bh step (i + step) st1 = Some st'"
      by (auto split: option.splits)
    from rows_step [OF True cols_loop_run [OF c] 1(1) [OF r]] show ?thesis .
  qed
qed

lemma scale_run_loop:
  "scale_run d scale bw bh st st' \<Longrightarrow> scale_loop d scale bw bh st = Some st'"
proof (induction rule: scale_run.induct)
  case (scale_done bw bh scale st)
  then show ?case by (subst scale_loop.simps) auto
next
  case (scale_step bw bh scale st st1 st')
  then show ?case
    by (subst scale_loop.simps) (simp add: rows_run_loop Let_def step_at_def block_at_def)
qed

lemma scale_loop_run:
  "scale_loop d scale bw bh st = Some st' \<Longrightarrow> scale_run d scale bw bh st st'"
proof (induction rule: scale_loop.raw_induct [rotated 1, consumes 1])
  case (1 f d scale bw bh st st')
  show ?case
  proof (cases "bw < det_width d \<and> bh < det_height d")
    case False
    with 1(2) show ?thesis by (auto intro: scale_done)
  next
    case True
    with 1(2) obtain st1 where
      c: "rows_loop d scale bw bh (step_at scale (det_stepSize d)) 0 st = Some st1" and
      r: "f d (js_mul scale (det_scaleFactor d))
            (block_at (js_mul scale (det_scaleFactor d)) (det_minWidth d))
            (block_at (js_mul scale (det_scaleFactor d)) (det_minHeight d)) st1 = Some st'"
      by (auto simp: Let_def step_at_def block_at_def split: option.splits)
    from scale_step [OF True rows_loop_run [OF c] 1(1) [OF r]] show ?thesis .
  qed
qed

lemma scan_run:
  "scan ii iis tii sobel width height initialScale scaleFactor stepSize edgesDensity data = Some st \<longleftrightarrow>
   scale_run (detect_env_of ii iis tii sobel width height scaleFactor stepSize edgesDensity data)
     (js_mul initialScale scaleFactor)
     (block_at (js_mul initialScale scaleFactor) (f64_get data 0))
     (block_at (js_mul initialScale scaleFactor) (f64_get data 1))
     \<lparr>st_rects = [], st_visits = []\<rparr> st"
  by (auto simp: scan_def Let_def block_at_def detect_env_of_def dest: scale_loop_run scale_run_loop)

lemma visits_push [simp]: "st_visits (push_visit st v) = st_visits st @ [v]"
  by (simp add: push_visit_def)

lemma cols_run_visits:
  assumes vw: "\<And>j v. visit_window d scale bw bh i j = Some v \<Longrightarrow> Pv v"
  shows "cols_run d scale bw bh step i j st st' \<Longrightarrow> list_all Pv (st_visits st) \<Longrightarrow>
           list_all Pv (st_visits st')"
  by (induction rule: cols_run.induct) (auto dest: vw)

lemma rows_run_visits:
  assumes vw: "\<And>i j v. visit_window d scale bw bh i j = Some v \<Longrightarrow> Pv v"
  shows "rows_run d scale bw bh step i st st' \<Longrightarrow> list_all Pv (st_visits st) \<Longrightarrow>
           list_all Pv (st_visits st')"
proof (induction rule: rows_run.induct)
  case (rows_done i st)
  then show ?case by simp
next
  case (rows_step i st st1 st')
  from cols_run_visits [of d scale bw bh i Pv, OF vw rows_step.hyps(2) rows_step.prems]
  show ?case by (rule rows_step.IH)
qed

lemma scale_run_visits:
  assumes step: "\<And>s bw bh. Inv s bw bh \<Longrightarrow> bw < det_width d \<and> bh < det_height d \<Longrightarrow>
      Inv (js_mul s (det_scaleFactor d)) (block_at (js_mul s (det_scaleFactor d)) (det_minWidth d))
        (block_at (js_mul s (det_scaleFactor d)) (det_minHeight d))"
    and vw: "\<And>s bw bh i j v. Inv s bw bh \<Longrightarrow> bw < det_width d \<and> bh < det_height d \<Longrightarrow>
      visit_window d s bw bh i j = Some v \<Longrightarrow> Pv v"
  shows "scale_run d scale bw bh st st' \<Longrightarrow> Inv scale bw bh \<Longrightarrow> list_all Pv (st_visits st) \<Longrightarrow>
           list_all Pv (st_visits st')"
proof (induction rule: scale_run.induct)
  case (scale_done bw bh scale st)
  then show ?case by simp
next
  case (scale_step bw bh scale st st1 st')
  have "list_all Pv (st_visits st1)"
    by (rule rows_run_visits [of d scale bw bh Pv, OF _ scale_step.hyps(2) scale_step.prems(2)])
       (rule vw [OF scale_step.prems(1) scale_step.hyps(1)])
  with scale_step.IH step [OF scale_step.prems(1) scale_step.hyps(1)] show ?case by blast
qed

lemma coherent_push: "coherent st \<Longrightarrow> coherent (push_visit st v)"
  by (simp add: coherent_def push_visit_def)

lemma cols_run_coherent: "cols_run d scale bw bh step i j st st' \<Longrightarrow> coherent st \<Longrightarrow> coherent st'"
  by (induction rule: cols_run.induct) (auto intro: coherent_push)

lemma rows_run_coherent: "rows_run d scale bw bh step i st st' \<Longrightarrow> coherent st \<Longrightarrow> coherent st'"
  by (induction rule: rows_run.induct) (auto dest: cols_run_coherent)

lemma scale_run_coherent: "scale_run d scale bw bh st st' \<Longrightarrow> coherent st \<Longrightarrow> coherent st'"
  by (induction rule: scale_run.induct) (auto dest: rows_run_coherent)

lemma visit_window_fields:
  "visit_window d s bw bh i j = Some v \<Longrightarrow>
     v_i v = i \<and> v_j v = j \<and> v_blockWidth v = bw \<and> v_blockHeight v = bh"
  by (auto simp: visit_window_def Let_def split: if_splits)



text \<open>Two runs that differ in the edge density only.\<close>

lemma js_lt_le_trans: "js_lt a b \<Longrightarrow> js_le b c \<Longrightarrow> js_lt a c"
  by (cases a; cases b; cases c) (auto simp: js_lt_def js_le_def)

lemma visit_window_mono:
  assumes le: "js_le e1 e2"
    and d1: "det_edgesDensity d1 = e1" "det_integralImageSobel d1 = (if js_gt e1 (Fin 0) then Some sobel else None)"
    and d2: "d2 = d1\<lparr>det_edgesDensity := e2, det_integralImageSobel := (if js_gt e2 (Fin 0) then Some sobel else None)\<rparr>"
    and v1: "visit_window d1 s bw bh i j = Some v1"
  shows "\<exists>v2. visit_window d2 s bw bh i j = Some v2 \<and> same_window v1 v2 \<and>
           (v_accepted v2 \<noteq> None \<longrightarrow> v_accepted v2 = v_accepted v1)"
proof -
  have pos: "js_gt e1 (Fin 0) \<Longrightarrow> js_gt e2 (Fin 0)"
    using le js_lt_le_trans [of "Fin 0" e1 e2] by (simp add: js_gt_def)
  have ex: "isTriviallyExcluded e1 sobel i j (det_width d1) bw bh \<Longrightarrow>
            isTriviallyExcluded e2 sobel i j (det_width d1) bw bh"
    using le by (auto simp: isTriviallyExcluded_density intro: js_lt_le_trans)
  show ?thesis
    using v1 pos ex unfolding d2
    by (auto simp: visit_window_def Let_def d1 same_window_def split: if_splits)
qed

lemma run_le_push:
  "run_le st1 st2 \<Longrightarrow> same_window v1 v2 \<Longrightarrow> (v_accepted v2 \<noteq> None \<longrightarrow> v_accepted v2 = v_accepted v1) \<Longrightarrow>
     run_le (push_visit st1 v1) (push_visit st2 v2)"
  by (simp add: run_le_def list_all2_appendI)

lemma run_le_evaluated: "run_le st1 st2 \<Longrightarrow> evaluated st2 \<le> evaluated st1"
proof -
  have "list_all2 (\<lambda>v1 v2. same_window v1 v2 \<and> (v_accepted v2 \<noteq> None \<longrightarrow> v_accepted v2 = v_accepted v1)) xs ys \<Longrightarrow>
        length (filter (\<lambda>v. v_accepted v \<noteq> None) ys) \<le> length (filter (\<lambda>v. v_accepted v \<noteq> None) xs)" for xs ys
    by (induction rule: list_all2_induct) auto
  then show "run_le st1 st2 \<Longrightarrow> evaluated st2 \<le> evaluated st1"
    by (simp add: run_le_def evaluated_def)
qed

lemma agree_fields:
  assumes "d2 = d1\<lparr>det_edgesDensity := e2, det_integralImageSobel := x\<rparr>"
  shows "det_width d2 = det_width d1" "det_height d2 = det_height d1" "det_stepSize d2 = det_stepSize d1"
    "det_scaleFactor d2 = det_scaleFactor d1" "det_minWidth d2 = det_minWidth d1"
    "det_minHeight d2 = det_minHeight d1"
  using assms by simp_all

lemma cols_run_mono:
  assumes le: "js_le e1 e2"
    and d1: "det_edgesDensity d1 = e1" "det_integralImageSobel d1 = (if js_gt e1 (Fin 0) then Some sobel else None)"
    and d2: "d2 = d1\<lparr>det_edgesDensity := e2, det_integralImageSobel := (if js_gt e2 (Fin 0) then Some sobel else None)\<rparr>"
  shows "cols_run d1 s bw bh step i j st1 st1' \<Longrightarrow> run_le st1 st2 \<Longrightarrow>
           \<exists>st2'. cols_run d2 s bw bh step i j st2 st2' \<and> run_le st1' st2'"
proof (induction arbitrary: st2 rule: cols_run.induct)
  case (cols_done j st)
  have "cols_run d2 s bw bh step i j st2 st2"
    by (rule cols_run.cols_done) (use cols_done.hyps agree_fields(1) [OF d2] in simp)
  with cols_done.prems show ?case by blast
next
  case (cols_step j v st st')
  from visit_window_mono [OF le d1 d2 cols_step.hyps(2)] obtain v2 where
    v2: "visit_window d2 s bw bh i j = Some v2" and sw: "same_window v v2"
    and acc: "v_accepted v2 \<noteq> None \<longrightarrow> v_accepted v2 = v_accepted v" by blast
  from cols_step.IH [OF run_le_push [OF cols_step.prems sw acc]] obtain st2' where
    r: "cols_run d2 s bw bh step i (j + step) (push_visit st2 v2) st2'" and l: "run_le st' st2'" by blast
  from cols_step.hyps(1) have "j < det_width d2 - bw" using agree_fields(1) [OF d2] by simp
  from cols_run.cols_step [OF this v2 r] l show ?case by blast
qed

lemma rows_run_mono:
  assumes le: "js_le e1 e2"
    and d1: "det_edgesDensity d1 = e1" "det_integralImageSobel d1 = (if js_gt e1 (Fin 0) then Some sobel else None)"
    and d2: "d2 = d1\<lparr>det_edgesDensity := e2, det_integralImageSobel := (if js_gt e2 (Fin 0) then Some sobel else None)\<rparr>"
  shows "rows_run d1 s bw bh step i st1 st1' \<Longrightarrow> run_le st1 st2 \<Longrightarrow>
           \<exists>st2'. rows_run d2 s bw bh step i st2 st2' \<and> run_le st1' st2'"
proof (induction arbitrary: st2 rule: rows_run.induct)
  case (rows_done i st)
  have "rows_run d2 s bw bh step i st2 st2"
    by (rule rows_run.rows_done) (use rows_done.hyps agree_fields(2) [OF d2] in simp)
  with rows_done.prems show ?case by blast
next
  case (rows_step i st st1 st')
  from cols_run_mono [OF le d1 d2 rows_step.hyps(2) rows_step.prems] obtain sa where
    c: "cols_run d2 s bw bh step i 0 st2 sa" and l: "run_le st1 sa" by blast
  from rows_step.IH [OF l] obtain st2' where
    r: "rows_run d2 s bw bh step (i + step) sa st2'" and l': "run_le st' st2'" by blast
  from rows_step.hyps(1) have "i < det_height d2 - bh" using agree_fields(2) [OF d2] by simp
  from rows_run.rows_step [OF this c r] l' show ?case by blast
qed

lemma scale_run_mono:
  assumes le: "js_le e1 e2"
    and d1: "det_edgesDensity d1 = e1" "det_integralImageSobel d1 = (if js_gt e1 (Fin 0) then Some sobel else None)"
    and d2: "d2 = d1\<lparr>det_edgesDensity := e2, det_integralImageSobel := (if js_gt e2 (Fin 0) then Some sobel else None)\<rparr>"
  shows "scale_run d1 s bw bh st1 st1' \<Longrightarrow> run_le st1 st2 \<Longrightarrow>
           \<exists>st2'. scale_run d2 s bw bh st2 st2' \<and> run_le st1' st2'"
proof (induction arbitrary: st2 rule: scale_run.induct)
  case (scale_done bw bh s st)
  have "scale_run d2 s bw bh st2 st2"
    by (rule scale_run.scale_done) (use scale_done.hyps agree_fields(1,2) [OF d2] in simp)
  with scale_done.prems show ?case by blast
next
  case (scale_step bw bh s st st1 st')
  note ag = agree_fields [OF d2]
  from rows_run_mono [OF le d1 d2 scale_step.hyps(2) scale_step.prems] obtain sa where
    c: "rows_run d2 s bw bh (step_at s (det_stepSize d1)) 0 st2 sa" and l: "run_le st1 sa" by blast
  from scale_step.IH [OF l] obtain st2' where
    r: "scale_run d2 (js_mul s (det_scaleFactor d1))
          (block_at (js_mul s (det_scaleFactor d1)) (det_minWidth d1))
          (block_at (js_mul s (det_scaleFactor d1)) (det_minHeight d1)) sa st2'"
    and l': "run_le st' st2'" by blast
  from scale_step.hyps(1) have f: "bw < det_width d2 \<and> bh < det_height d2" using ag by simp
  from scale_run.scale_step [of bw d2 bh s st2 sa st2'] f c r ag l' show ?case by auto
qed

lemma detect_env_of_raise:
  "detect_env_of ii iis tii sobel width height scaleFactor stepSize e2 data =
     (detect_env_of ii iis tii sobel width height scaleFactor stepSize e1 data)
       \<lparr>det_edgesDensity := e2, det_integralImageSobel := (if js_gt e2 (Fin 0) then Some sobel else None)\<rparr>"
  by (simp add: detect_env_of_def)

lemma scan_mono:
  assumes le: "js_le e1 e2"
    and s1: "scan ii iis tii sobel width height initialScale scaleFactor stepSize e1 data = Some st1"
  shows "\<exists>st2. scan ii iis tii sobel width height initialScale scaleFactor stepSize e2 data = Some st2 \<and>
           run_le st1 st2"
proof -
  let ?d1 = "detect_env_of ii iis tii sobel width height scaleFactor stepSize e1 data"
  let ?d2 = "detect_env_of ii iis tii sobel width height scaleFactor stepSize e2 data"
  have d1: "det_edgesDensity ?d1 = e1" "det_integralImageSobel ?d1 = (if js_gt e1 (Fin 0) then Some sobel else None)"
    by (simp_all add: detect_env_of_def)
  have e: "run_le \<lparr>st_rects = [], st_visits = []\<rparr> \<lparr>st_rects = [], st_visits = []\<rparr>"
    by (simp add: run_le_def)
  from s1 have "scale_run ?d1 (js_mul initialScale scaleFactor)
     (block_at (js_mul initialScale scaleFactor) (f64_get data 0))
     (block_at (js_mul initialScale scaleFactor) (f64_get data 1))
     \<lparr>st_rects = [], st_visits = []\<rparr> st1" by (simp add: scan_run)
  from scale_run_mono [OF le d1 detect_env_of_raise this e] show ?thesis
    by (simp add: scan_run)
qed


section \<open>Proofs: evaluation on finite numbers\<close>

lemma fin_of_simps: "r \<noteq> 0 \<Longrightarrow> fin_of n r = Fin r" "fin_of n 0 = zero_of n" "zero_of False = Fin 0" "zero_of True = NZero"
  by (simp_all add: fin_of_def zero_of_def)

lemma js_mul_Fin: "js_mul (Fin a) (Fin b) = fin_of ((a < 0) \<noteq> (b < 0)) (a * b)"
  by (simp add: js_mul_def is_zero_def is_inf_def)

lemma js_div_Fin: "b \<noteq> 0 \<Longrightarrow> js_div (Fin a) (Fin b) = fin_of ((a < 0) \<noteq> (b < 0)) (a / b)"
  by (simp add: js_div_def is_zero_def is_inf_def)

lemma js_add_Fin: "js_add (Fin a) (Fin b) = fin_of False (a + b)"
  by (simp add: js_add_def is_inf_def)

lemma js_sub_Fin: "js_sub (Fin a) (Fin b) = fin_of False (a - b)"
  by (simp add: js_sub_def js_add_def is_inf_def fin_of_def)

lemma js_lt_Fin: "js_lt (Fin a) (Fin b) \<longleftrightarrow> a < b"
  by (simp add: js_lt_def)

lemma js_gt_Fin: "js_gt (Fin a) (Fin b) \<longleftrightarrow> b < a"
  by (simp add: js_gt_def js_lt_def)

lemma truthy_Fin: "truthy (Fin a) \<longleftrightarrow> a \<noteq> 0"
  by (simp add: truthy_def is_zero_def)

lemma to_int32_small: "- 2147483648 \<le> trunc r \<Longrightarrow> trunc r < 2147483648 \<Longrightarrow> to_int32 (Fin r) = trunc r"
  by (simp add: wrap32_def)

lemma i32_get_zero: "0 \<le> k \<Longrightarrow> k < 9 \<Longrightarrow> i32_get zero_table k = Fin 0"
proof -
  assume k: "0 \<le> k" "k < 9"
  have "\<forall>x \<in> set zero_table. x = 0" by (simp add: zero_table_def)
  moreover have "nat k < length zero_table" using k by (simp add: zero_table_def)
  ultimately have "zero_table ! nat k = 0" using nth_mem by blast
  with k show ?thesis by (simp add: i32_get_def Num_def zero_table_def)
qed

lemmas fin_eval = fin_of_simps js_mul_Fin js_div_Fin js_add_Fin js_sub_Fin js_lt_Fin js_gt_Fin truthy_Fin
  Num_def trunc_def wrap32_def


section \<open>Proofs: the scan as a list of windows\<close>

lemma those_append:
  "those (xs @ ys) = (case those xs of None \<Rightarrow> None | Some as \<Rightarrow> map_option ((@) as) (those ys))"
proof (induction xs)
  case Nil
  show ?case by (cases "those ys") simp_all
next
  case (Cons x xs)
  then show ?case by (cases "those ys") (auto split: option.splits)
qed

lemma grid_count:
  assumes s: "0 < step"
  shows "int a * step < bound \<longleftrightarrow> a < nat ((bound + step - 1) div step)"
proof -
  let ?B = "bound + step - 1"
  let ?q = "?B div step" and ?r = "?B mod step"
  have r: "0 \<le> ?r" "?r < step" using s by simp_all
  have B: "?q * step + ?r = ?B" by simp
  have "int a < ?q \<longleftrightarrow> int a * step < bound"
  proof
    assume "int a < ?q"
    then have "int a + 1 \<le> ?q" by simp
    then have "(int a + 1) * step \<le> ?q * step" using s by (intro mult_right_mono) simp_all
    then have "int a * step + step \<le> ?q * step" by (simp add: algebra_simps)
    with B r show "int a * step < bound" by linarith
  next
    assume "int a * step < bound"
    with B r have "int a * step < ?q * step" by linarith
    with s mult_right_less_imp_less [of "int a" step ?q] show "int a < ?q" by simp
  qed
  then show ?thesis by (simp add: zless_nat_eq_int_zless)
qed

lemma foldl_push:
  "foldl push_visit st vs =
     \<lparr>st_rects = st_rects st @ map rect_of_visit (filter (\<lambda>v. v_accepted v = Some True) vs),
      st_visits = st_visits st @ vs\<rparr>"
  by (induction vs arbitrary: st) (simp_all add: push_visit_def)

lemma cols_forward:
  assumes s: "0 < step"
  shows "n = nat ((det_width d - bw + step - 1) div step) - a0 \<Longrightarrow>
         a0 \<le> nat ((det_width d - bw + step - 1) div step) \<Longrightarrow>
         those (map (\<lambda>a. visit_window d sc bw bh i (int a * step))
                  [a0..<nat ((det_width d - bw + step - 1) div step)]) = Some vs \<Longrightarrow>
         cols_run d sc bw bh step i (int a0 * step) st (foldl push_visit st vs)"
proof (induction n arbitrary: a0 st vs)
  case 0
  then have e: "a0 = nat ((det_width d - bw + step - 1) div step)" by simp
  with 0 have vs: "vs = []" by simp
  have "\<not> int a0 * step < det_width d - bw" using grid_count [OF s, of a0 "det_width d - bw"] e by simp
  then show ?case unfolding vs by (simp add: cols_done)
next
  case (Suc n)
  let ?c = "nat ((det_width d - bw + step - 1) div step)"
  from Suc.prems have lt: "a0 < ?c" by simp
  then have upt: "[a0..<?c] = a0 # [Suc a0..<?c]" by (simp add: upt_conv_Cons)
  from Suc.prems(3) obtain v vs' where
    v: "visit_window d sc bw bh i (int a0 * step) = Some v" and
    r: "those (map (\<lambda>a. visit_window d sc bw bh i (int a * step)) [Suc a0..<?c]) = Some vs'" and
    vs: "vs = v # vs'"
    unfolding upt by (auto split: option.splits)
  have j: "int a0 * step < det_width d - bw" using grid_count [OF s, of a0 "det_width d - bw"] lt by simp
  have n: "n = ?c - Suc a0" using Suc.prems(1) by simp
  have le: "Suc a0 \<le> ?c" using lt by simp
  have nx: "int (Suc a0) * step = int a0 * step + step" by (simp add: algebra_simps)
  from Suc.IH [OF n le r, of "push_visit st v"]
  have "cols_run d sc bw bh step i (int a0 * step + step) (push_visit st v) (foldl push_visit (push_visit st v) vs')"
    unfolding nx .
  from cols_step [OF j v this] show ?case unfolding vs by simp
qed

lemma cols_grid:
  assumes s: "0 < step"
    and t: "those (map (visit_window d sc bw bh i) (grid step (det_width d - bw))) = Some vs"
  shows "cols_run d sc bw bh step i 0 st (foldl push_visit st vs)"
  using cols_forward [OF s refl, of 0 d bw sc bh i vs st] t
  by (simp add: grid_def comp_def)

lemma rows_forward:
  assumes s: "0 < step"
  shows "n = nat ((det_height d - bh + step - 1) div step) - a0 \<Longrightarrow>
         a0 \<le> nat ((det_height d - bh + step - 1) div step) \<Longrightarrow>
         those (concat (map (\<lambda>a. map (visit_window d sc bw bh (int a * step)) (grid step (det_width d - bw)))
                  [a0..<nat ((det_height d - bh + step - 1) div step)])) = Some vs \<Longrightarrow>
         rows_run d sc bw bh step (int a0 * step) st (foldl push_visit st vs)"
proof (induction n arbitrary: a0 st vs)
  case 0
  then have e: "a0 = nat ((det_height d - bh + step - 1) div step)" by simp
  with 0 have vs: "vs = []" by simp
  have "\<not> int a0 * step < det_height d - bh" using grid_count [OF s, of a0 "det_height d - bh"] e by simp
  then show ?case unfolding vs by (simp add: rows_done)
next
  case (Suc n)
  let ?c = "nat ((det_height d - bh + step - 1) div step)"
  from Suc.prems have lt: "a0 < ?c" by simp
  then have upt: "[a0..<?c] = a0 # [Suc a0..<?c]" by (simp add: upt_conv_Cons)
  from Suc.prems(3) obtain vs1 vs2 where
    v: "those (map (visit_window d sc bw bh (int a0 * step)) (grid step (det_width d - bw))) = Some vs1" and
    r: "those (concat (map (\<lambda>a. map (visit_window d sc bw bh (int a * step)) (grid step (det_width d - bw)))
                  [Suc a0..<?c])) = Some vs2" and
    vs: "vs = vs1 @ vs2"
    unfolding upt by (auto simp: those_append split: option.splits)
  have j: "int a0 * step < det_height d - bh" using grid_count [OF s, of a0 "det_height d - bh"] lt by simp
  have n: "n = ?c - Suc a0" using Suc.prems(1) by simp
  have le: "Suc a0 \<le> ?c" using lt by simp
  have nx: "int (Suc a0) * step = int a0 * step + step" by (simp add: algebra_simps)
  from Suc.IH [OF n le r, of "foldl push_visit st vs1"]
  have "rows_run d sc bw bh step (int a0 * step + step) (foldl push_visit st vs1)
          (foldl push_visit (foldl push_visit st vs1) vs2)"
    unfolding nx .
  from rows_step [OF j cols_grid [OF s v] this] show ?case unfolding vs by simp
qed

lemma rows_grid:
  assumes s: "0 < step_at sc (det_stepSize d)"
    and bw: "bw = block_at sc (det_minWidth d)" and bh: "bh = block_at sc (det_minHeight d)"
    and t: "those (scale_windows d sc) = Some vs"
  shows "rows_run d sc bw bh (step_at sc (det_stepSize d)) 0 st (foldl push_visit st vs)"
  using rows_forward [OF s refl, of 0 d bh sc bw vs st] t
  by (simp add: scale_windows_def grid_def [of _ "det_height d - _"] comp_def bw bh)

lemma scale_forward:
  fixes d :: detect_env and initialScale :: jsnum
  defines "S \<equiv> scale_at initialScale (det_scaleFactor d)"
  assumes nf: "\<not> fits d (S K)"
  shows "n = K - k0 \<Longrightarrow> k0 \<le> K \<Longrightarrow>
         (\<forall>k. k0 \<le> k \<and> k < K \<longrightarrow> fits d (S k) \<and> 0 < step_at (S k) (det_stepSize d)) \<Longrightarrow>
         those (concat (map (\<lambda>k. scale_windows d (S k)) [k0..<K])) = Some vs \<Longrightarrow>
         scale_run d (S k0) (block_at (S k0) (det_minWidth d)) (block_at (S k0) (det_minHeight d)) st
           (foldl push_visit st vs)"
proof (induction n arbitrary: k0 st vs)
  case 0
  then have e: "k0 = K" by simp
  with 0 have vs: "vs = []" by simp
  show ?case unfolding vs e using nf by (simp add: scale_done fits_def)
next
  case (Suc n)
  from Suc.prems have lt: "k0 < K" by simp
  then have upt: "[k0..<K] = k0 # [Suc k0..<K]" by (simp add: upt_conv_Cons)
  from Suc.prems(4) obtain vs1 vs2 where
    v: "those (scale_windows d (S k0)) = Some vs1" and
    r: "those (concat (map (\<lambda>k. scale_windows d (S k)) [Suc k0..<K])) = Some vs2" and
    vs: "vs = vs1 @ vs2"
    unfolding upt by (auto simp: those_append split: option.splits)
  from Suc.prems(3) lt have f: "fits d (S k0)" and st: "0 < step_at (S k0) (det_stepSize d)" by auto
  have n: "n = K - Suc k0" using Suc.prems(1) by simp
  have le: "Suc k0 \<le> K" using lt by simp
  have all: "\<forall>k. Suc k0 \<le> k \<and> k < K \<longrightarrow> fits d (S k) \<and> 0 < step_at (S k) (det_stepSize d)"
    using Suc.prems(3) by auto
  have nx: "S (Suc k0) = js_mul (S k0) (det_scaleFactor d)" by (simp add: S_def)
  from Suc.IH [OF n le all r, of "foldl push_visit st vs1"]
  have tl: "scale_run d (js_mul (S k0) (det_scaleFactor d))
      (block_at (js_mul (S k0) (det_scaleFactor d)) (det_minWidth d))
      (block_at (js_mul (S k0) (det_scaleFactor d)) (det_minHeight d))
      (foldl push_visit st vs1) (foldl push_visit (foldl push_visit st vs1) vs2)"
    unfolding nx .
  from f have f': "block_at (S k0) (det_minWidth d) < det_width d \<and> block_at (S k0) (det_minHeight d) < det_height d"
    by (simp add: fits_def)
  from scale_step [OF f' rows_grid [OF st refl refl v] tl] show ?case unfolding vs by simp
qed

lemma scan_grid:
  fixes ii iis tii sobel width height initialScale scaleFactor stepSize edgesDensity data
  defines "d \<equiv> detect_env_of ii iis tii sobel width height scaleFactor stepSize edgesDensity data"
  assumes f: "\<forall>k<K. fits d (scale_at initialScale scaleFactor k) \<and>
                     0 < step_at (scale_at initialScale scaleFactor k) stepSize"
    and nf: "\<not> fits d (scale_at initialScale scaleFactor K)"
    and t: "those (concat (map (\<lambda>k. scale_windows d (scale_at initialScale scaleFactor k)) [0..<K])) = Some vs"
  shows "scan ii iis tii sobel width height initialScale scaleFactor stepSize edgesDensity data =
           Some \<lparr>st_rects = map rect_of_visit (filter (\<lambda>v. v_accepted v = Some True) vs), st_visits = vs\<rparr>"
proof -
  have sf: "det_scaleFactor d = scaleFactor" "det_stepSize d = stepSize"
    "det_minWidth d = f64_get data 0" "det_minHeight d = f64_get data 1"
    by (simp_all add: d_def detect_env_of_def)
  have "scale_run d (scale_at initialScale (det_scaleFactor d) 0)
          (block_at (scale_at initialScale (det_scaleFactor d) 0) (det_minWidth d))
          (block_at (scale_at initialScale (det_scaleFactor d) 0) (det_minHeight d))
          \<lparr>st_rects = [], st_visits = []\<rparr> (foldl push_visit \<lparr>st_rects = [], st_visits = []\<rparr> vs)"
    by (rule scale_forward [OF _ refl]) (use f nf t in \<open>simp_all add: sf\<close>)
  then show ?thesis
    unfolding scan_run d_def [symmetric] by (simp add: sf foldl_push)
qed

lemma to_int32_floor: "0 \<le> val a \<Longrightarrow> val a < 2147483648 \<Longrightarrow> to_int32 a = floor_of a"
proof (cases a)
  case (Fin r)
  assume "0 \<le> val a" "val a < 2147483648"
  with Fin have r: "0 \<le> r" "r < 2147483648" by simp_all
  then have "0 \<le> \<lfloor>r\<rfloor>" "\<lfloor>r\<rfloor> < 2147483648" by (simp_all add: floor_less_iff)
  then show ?thesis using Fin r by (simp add: floor_of_def trunc_def wrap32_def)
qed (simp_all add: floor_of_def)


section \<open>Proofs: a cascade of one node\<close>

lemma unit_node_value: "node_value e unit_node = Fin 1 \<or> node_value e unit_node = Fin 2"
  by (simp add: node_value_def unit_node_def)

lemma unit_stage_sum: "stage_sum e (unit_stage t) = Fin 1 \<or> stage_sum e (unit_stage t) = Fin 2"
  using unit_node_value [of e] by (auto simp: stage_sum_def unit_stage_def js_add_Fin fin_of_simps)

lemma unit_stage_accepts: "t \<le> 1 \<Longrightarrow> \<not> stage_rejects e (unit_stage t)"
  using unit_stage_sum [of e t] by (auto simp: stage_rejects_def js_lt_Fin) (simp_all add: unit_stage_def js_lt_Fin)

lemma unit_stage_rejects: "2 < t \<Longrightarrow> stage_rejects e (unit_stage t)"
  using unit_stage_sum [of e t] by (auto simp: stage_rejects_def js_lt_Fin) (simp_all add: unit_stage_def js_lt_Fin)

lemma evalStages_unit:
  "evalStages (encode_cascade mw mh [unit_stage 0]) ii iis tii i j width bw bh sc = Some True"
  by (simp add: evalStages_encoded unit_stage_accepts)

lemma evalStages_truncated_unit:
  "evalStages [Fin 1, Fin 1, Fin 1000, Fin 1] ii iis tii i j width bw bh sc = Some True"
  using evalStages_truncated [of "Fin 1" "Fin 1" "[]" "Fin 1000" 0 ii iis tii i j width bw bh sc]
  by (simp add: encode_cascade_def Num_def)

lemma cascade_min [simp]:
  "f64_get (encode_cascade mw mh stages) 0 = mw" "f64_get (encode_cascade mw mh stages) 1 = mh"
  "f64_get (encode_cascade mw mh stages) (Suc 0) = mh"
  by (simp_all add: encode_cascade_def f64_get_def)

lemma det_fields [simp]:
  "det_data (detect_env_of ii iis tii sobel width height scaleFactor stepSize e data) = data"
  "det_integralImage (detect_env_of ii iis tii sobel width height scaleFactor stepSize e data) = ii"
  "det_integralImageSquare (detect_env_of ii iis tii sobel width height scaleFactor stepSize e data) = iis"
  "det_tiltedIntegralImage (detect_env_of ii iis tii sobel width height scaleFactor stepSize e data) = tii"
  "det_integralImageSobel (detect_env_of ii iis tii sobel width height scaleFactor stepSize e data) =
     (if js_gt e (Fin 0) then Some sobel else None)"
  "det_width (detect_env_of ii iis tii sobel width height scaleFactor stepSize e data) = width"
  "det_height (detect_env_of ii iis tii sobel width height scaleFactor stepSize e data) = height"
  "det_scaleFactor (detect_env_of ii iis tii sobel width height scaleFactor stepSize e data) = scaleFactor"
  "det_stepSize (detect_env_of ii iis tii sobel width height scaleFactor stepSize e data) = stepSize"
  "det_edgesDensity (detect_env_of ii iis tii sobel width height scaleFactor stepSize e data) = e"
  "det_minWidth (detect_env_of ii iis tii sobel width height scaleFactor stepSize e data) = f64_get data 0"
  "det_minHeight (detect_env_of ii iis tii sobel width height scaleFactor stepSize e data) = f64_get data 1"
  by (simp_all add: detect_env_of_def)

lemma visit_unit:
  "\<not> js_gt e (Fin 0) \<Longrightarrow>
   visit_window (detect_env_of ii iis tii sobel width height scaleFactor stepSize e
       (encode_cascade mw mh [unit_stage 0])) sc bw bh i j =
     Some (Visit i j bw bh None (Some True))"
  by (simp add: visit_window_def evalStages_unit)

lemma visit_truncated:
  "\<not> js_gt e (Fin 0) \<Longrightarrow>
   visit_window (detect_env_of ii iis tii sobel width height scaleFactor stepSize e
       [Fin 1, Fin 1, Fin 1000, Fin 1]) sc bw bh i j =
     Some (Visit i j bw bh None (Some True))"
  by (simp add: visit_window_def evalStages_truncated_unit)

lemma excluded_zero: "isTriviallyExcluded (Fin (1 / 5)) zero_table 0 0 3 2 2"
  by (simp add: isTriviallyExcluded_def Let_def i32_get_zero fin_eval)

lemma visit_pruned:
  "visit_window (detect_env_of ii iis tii zero_table 3 height scaleFactor stepSize (Fin (1 / 5)) data)
      sc 2 2 0 0 =
     Some (Visit 0 0 2 2 (Some True) None)"
  by (simp add: visit_window_def excluded_zero js_gt_Fin)

lemmas scan_eval =
  fits_def block_at_def step_at_def scale_windows_def grid_def fin_eval js_gt_Fin rect_of_visit_def

lemma scan_ex0:
  "scan zero_table zero_table zero_table zero_table 3 3 (Fin 1) (Fin 2) (Fin 1) (Fin 0)
     (encode_cascade (Fin 1) (Fin 1) [unit_stage 0]) =
   Some \<lparr>st_rects = [\<lparr>rect_x = 0, rect_y = 0, rect_width = 2, rect_height = 2, rect_total = 0\<rparr>],
         st_visits = [Visit 0 0 2 2 None (Some True)]\<rparr>"
  using scan_grid [of 1 zero_table zero_table zero_table zero_table 3 3 "Fin 2" "Fin 1" "Fin 0"
      "encode_cascade (Fin 1) (Fin 1) [unit_stage 0]" "Fin 1" "[Visit 0 0 2 2 None (Some True)]"]
  by (simp add: scan_eval visit_unit)

lemma scan_ex1:
  "scan zero_table zero_table zero_table zero_table 3 3 (Fin 1) (Fin 2) (Fin 1) (Fin (1 / 5))
     (encode_cascade (Fin 1) (Fin 1) [unit_stage 0]) =
   Some \<lparr>st_rects = [], st_visits = [Visit 0 0 2 2 (Some True) None]\<rparr>"
  using scan_grid [of 1 zero_table zero_table zero_table zero_table 3 3 "Fin 2" "Fin 1" "Fin (1 / 5)"
      "encode_cascade (Fin 1) (Fin 1) [unit_stage 0]" "Fin 1" "[Visit 0 0 2 2 (Some True) None]"]
  by (simp add: scan_eval visit_pruned)

lemma scan_ex_truncated:
  "scan zero_table zero_table zero_table [] 3 3 (Fin 1) (Fin 2) (Fin 1) (Fin 0)
     [Fin 1, Fin 1, Fin 1000, Fin 1] =
   Some \<lparr>st_rects = [\<lparr>rect_x = 0, rect_y = 0, rect_width = 2, rect_height = 2, rect_total = 0\<rparr>],
         st_visits = [Visit 0 0 2 2 None (Some True)]\<rparr>"
  using scan_grid [of 1 zero_table zero_table zero_table "[]" 3 3 "Fin 2" "Fin 1" "Fin 0"
      "[Fin 1, Fin 1, Fin 1000, Fin 1]" "Fin 1" "[Visit 0 0 2 2 None (Some True)]"]
  by (simp add: scan_eval visit_truncated f64_get_def)

lemma scan_ex_small:
  "scan zero_table zero_table zero_table zero_table 3 3 (Fin (1 / 4)) (Fin 3) (Fin 4) (Fin 0)
     (encode_cascade (Fin 1) (Fin 1) [unit_stage 0]) =
   Some \<lparr>st_rects = [\<lparr>rect_x = 0, rect_y = 0, rect_width = 0, rect_height = 0, rect_total = 0\<rparr>,
                     \<lparr>rect_x = 0, rect_y = 0, rect_width = 2, rect_height = 2, rect_total = 0\<rparr>],
         st_visits = [Visit 0 0 0 0 None (Some True), Visit 0 0 2 2 None (Some True)]\<rparr>"
  using scan_grid [of 2 zero_table zero_table zero_table zero_table 3 3 "Fin 3" "Fin 4" "Fin 0"
      "encode_cascade (Fin 1) (Fin 1) [unit_stage 0]" "Fin (1 / 4)"
      "[Visit 0 0 0 0 None (Some True), Visit 0 0 2 2 None (Some True)]"]
  by (simp add: scan_eval visit_unit upt_conv_Cons less_Suc_eq numeral_2_eq_2)

lemma scan_ex_large:
  "scan zero_table zero_table zero_table zero_table 3 3 (Fin 4294967297) (Fin 2) (Fin 1) (Fin 0)
     (encode_cascade (Fin 1) (Fin 1) [unit_stage 0]) =
   Some \<lparr>st_rects = [\<lparr>rect_x = 0, rect_y = 0, rect_width = 2, rect_height = 2, rect_total = 0\<rparr>],
         st_visits = [Visit 0 0 2 2 None (Some True)]\<rparr>"
  using scan_grid [of 1 zero_table zero_table zero_table zero_table 3 3 "Fin 2" "Fin 1" "Fin 0"
      "encode_cascade (Fin 1) (Fin 1) [unit_stage 0]" "Fin 4294967297" "[Visit 0 0 2 2 None (Some True)]"]
  by (simp add: scan_eval visit_unit)


section \<open>Proofs: the claims on the detector\<close>

lemmas merge_eval =
  mergeRectangles_def new_DisjointSet_def merge_pair_def intersectRect_def REGIONS_OVERLAP_def union_ds_def
  find_ds.simps merge_inner.simps merge_outer.simps group_loop.simps store_parent_def to_uint32_def
  group_add_def List.map_filter_def group_rect_def rounded_mean_def upt_conv_Cons Let_def

lemmas js_eval =
  Num_def js_mul_def js_div_def js_add_def js_sub_def js_lt_def js_gt_def js_ge_def js_le_def is_zero_def
  is_inf_def fin_of_def zero_of_def inf_of_def truthy_def trunc_def wrap32_def f64_get_def i32_get_def

text \<open>
  Claim C1. For a window at \<open>(i, j)\<close> of size \<open>blockWidth\<close> by \<open>blockHeight\<close>, evalStages_
  takes \<open>inverseArea = 1 / (blockWidth * blockHeight)\<close> and the standard deviation
  \<open>sqrt(variance)\<close> when the variance is positive and 1 otherwise. On a cascade array that
  encodes a list of stages it returns, and its result is true exactly when no stage
  rejects, where a stage rejects when its sum is strictly below its threshold and a node
  adds its left value when its weighted rectangle sum times \<open>inverseArea\<close> is strictly
  below its threshold times the standard deviation, its right value otherwise. When a
  stage rejects after stages that do not, the result is false whatever follows that stage
  in the array: nothing after it is read.
\<close>

theorem evalStages_cascade:
  "env_inverseArea (evalStages_env (encode_cascade mw mh stages) ii iis tii i j width bw bh scale) =
     js_div (Fin 1) (js_mul (Num bw) (Num bh)) \<and>
   env_standardDeviation (evalStages_env (encode_cascade mw mh stages) ii iis tii i j width bw bh scale) =
     (if js_gt (window_variance ii iis i j width bw bh) (Fin 0)
      then js_sqrt (window_variance ii iis i j width bw bh) else Fin 1) \<and>
   evalStages (encode_cascade mw mh stages) ii iis tii i j width bw bh scale =
     Some (list_all (\<lambda>s. \<not> stage_rejects
        (evalStages_env (encode_cascade mw mh stages) ii iis tii i j width bw bh scale) s) stages) \<and>
   (list_all (\<lambda>s. \<not> stage_rejects
        (evalStages_env (encode_cascade mw mh (pre @ [bad]) @ rest) ii iis tii i j width bw bh scale) s) pre \<and>
    stage_rejects
        (evalStages_env (encode_cascade mw mh (pre @ [bad]) @ rest) ii iis tii i j width bw bh scale) bad \<longrightarrow>
    evalStages (encode_cascade mw mh (pre @ [bad]) @ rest) ii iis tii i j width bw bh scale = Some False)"
proof (intro conjI impI)
  show "env_inverseArea (evalStages_env (encode_cascade mw mh stages) ii iis tii i j width bw bh scale) =
     js_div (Fin 1) (js_mul (Num bw) (Num bh))"
    by (simp add: evalStages_env_def Let_def)
  show "env_standardDeviation (evalStages_env (encode_cascade mw mh stages) ii iis tii i j width bw bh scale) =
     (if js_gt (window_variance ii iis i j width bw bh) (Fin 0)
      then js_sqrt (window_variance ii iis i j width bw bh) else Fin 1)"
    by (simp add: evalStages_env_def window_variance_def Let_def)
  show "evalStages (encode_cascade mw mh stages) ii iis tii i j width bw bh scale =
     Some (list_all (\<lambda>s. \<not> stage_rejects
        (evalStages_env (encode_cascade mw mh stages) ii iis tii i j width bw bh scale) s) stages)"
    by (rule evalStages_encoded)
next
  assume "list_all (\<lambda>s. \<not> stage_rejects
        (evalStages_env (encode_cascade mw mh (pre @ [bad]) @ rest) ii iis tii i j width bw bh scale) s) pre \<and>
    stage_rejects
        (evalStages_env (encode_cascade mw mh (pre @ [bad]) @ rest) ii iis tii i j width bw bh scale) bad"
  then show "evalStages (encode_cascade mw mh (pre @ [bad]) @ rest) ii iis tii i j width bw bh scale = Some False"
    using evalStages_short_circuit by blast
qed


theorem evalStages_cascade_witness:
  "evalStages (encode_cascade (Fin 2) (Fin 2) [unit_stage 0, unit_stage 1]) zero_table zero_table zero_table
     0 0 3 2 2 (Fin 1) = Some True \<and>
   evalStages (encode_cascade (Fin 2) (Fin 2) ([unit_stage 0] @ [unit_stage 5]) @ [Fin 9, Fin (- 1)])
     zero_table zero_table zero_table 0 0 3 2 2 (Fin 1) = Some False"
  using evalStages_cascade [of "Fin 2" "Fin 2" "[unit_stage 0, unit_stage 1]" zero_table zero_table zero_table
      0 0 3 2 2 "Fin 1" "[unit_stage 0]" "unit_stage 5" "[Fin 9, Fin (- 1)]"]
  by (simp add: unit_stage_accepts unit_stage_rejects)

lemma unions_total:
  "forest s \<Longrightarrow> list_all (\<lambda>c. fst c < ds_length s \<and> snd c < ds_length s) cs \<Longrightarrow>
     \<exists>s'. unions s cs = Some s' \<and> forest s' \<and> ds_length s' = ds_length s"
proof (induction cs arbitrary: s)
  case Nil
  then show ?case by simp
next
  case (Cons c cs)
  from Cons.prems have c: "fst c < ds_length s" "snd c < ds_length s" by simp_all
  from forest_union [OF Cons.prems(1) c] obtain s1 where
    u: "union_ds s (fst c) (snd c) = Some s1" and f: "forest s1" and l: "ds_length s1 = ds_length s"
    by blast
  from Cons.prems l have "list_all (\<lambda>c. fst c < ds_length s1 \<and> snd c < ds_length s1) cs" by simp
  from Cons.IH [OF f this] u l show ?case by auto
qed

text \<open>
  Claim C2. The pair loops of mergeRectangles_ return for every list of raw rectangles,
  and the disjoint set they build is the one obtained by calling \<open>union(i, j)\<close>, in loop
  order, for exactly the ordered pairs \<open>(i, j)\<close> whose boxes intersect (touching borders
  included) and whose two ratios \<open>overlap / (area1 * (area1 / area2))\<close> and
  \<open>overlap / (area2 * (area1 / area2))\<close> are both at least 0.5.
\<close>

theorem merge_unions_pairs:
  "merge_outer rects 0 (new_DisjointSet (length rects)) =
     unions (new_DisjointSet (length rects))
       (filter (\<lambda>(i, j). should_union (rects ! i) (rects ! j))
          (List.product [0..<length rects] [0..<length rects])) \<and>
   (\<exists>ds. merge_outer rects 0 (new_DisjointSet (length rects)) = Some ds)"
proof -
  let ?cs = "filter (\<lambda>(i, j). should_union (rects ! i) (rects ! j))
          (List.product [0..<length rects] [0..<length rects])"
  have eq: "merge_outer rects 0 (new_DisjointSet (length rects)) = unions (new_DisjointSet (length rects)) ?cs"
    by (simp add: merge_outer_eq filter_product)
  have "list_all (\<lambda>c. fst c < ds_length (new_DisjointSet (length rects)) \<and>
                      snd c < ds_length (new_DisjointSet (length rects))) ?cs"
    by (auto simp: list_all_iff new_length)
  from unions_total [OF forest_new this] eq show ?thesis by auto
qed

lemma should_union_ex:
  "should_union \<lparr>rect_x = 0, rect_y = 0, rect_width = 10, rect_height = 10, rect_total = 0\<rparr>
     \<lparr>rect_x = 2, rect_y = 2, rect_width = 10, rect_height = 10, rect_total = 0\<rparr>"
  "should_union \<lparr>rect_x = 2, rect_y = 2, rect_width = 10, rect_height = 10, rect_total = 0\<rparr>
     \<lparr>rect_x = 0, rect_y = 0, rect_width = 10, rect_height = 10, rect_total = 0\<rparr>"
  "should_union \<lparr>rect_x = 0, rect_y = 0, rect_width = 10, rect_height = 10, rect_total = 0\<rparr>
     \<lparr>rect_x = 0, rect_y = 0, rect_width = 10, rect_height = 10, rect_total = 0\<rparr>"
  "should_union \<lparr>rect_x = 2, rect_y = 2, rect_width = 10, rect_height = 10, rect_total = 0\<rparr>
     \<lparr>rect_x = 2, rect_y = 2, rect_width = 10, rect_height = 10, rect_total = 0\<rparr>"
  "\<not> should_union scenario_B_first scenario_B_second"
  by (simp_all add: should_union_def boxes_intersect_def intersection_area_def rect_area_def js_eval
      scenario_B_first_def scenario_B_second_def)

theorem merge_unions_pairs_witness:
  "merge_outer [\<lparr>rect_x = 0, rect_y = 0, rect_width = 10, rect_height = 10, rect_total = 0\<rparr>,
                \<lparr>rect_x = 2, rect_y = 2, rect_width = 10, rect_height = 10, rect_total = 0\<rparr>] 0 (new_DisjointSet 2) =
     unions (new_DisjointSet 2) [(0, 0), (0, 1), (1, 0), (1, 1)]"
proof -
  have l: "length [\<lparr>rect_x = 0, rect_y = 0, rect_width = 10, rect_height = 10, rect_total = 0\<rparr>,
                \<lparr>rect_x = 2, rect_y = 2, rect_width = (10::int), rect_height = 10, rect_total = 0\<rparr>] = 2"
    by simp
  show ?thesis
    using merge_unions_pairs [of "[\<lparr>rect_x = 0, rect_y = 0, rect_width = 10, rect_height = 10, rect_total = 0\<rparr>,
                \<lparr>rect_x = 2, rect_y = 2, rect_width = 10, rect_height = 10, rect_total = 0\<rparr>]", unfolded l]
    by (simp add: should_union_ex upt_conv_Cons)
qed



lemma mergeRectangles_no_malformed: "mergeRectangles rects \<noteq> Some (Inl MalformedCascadeError)"
  by (simp add: mergeRectangles_def split: option.splits)

text \<open>
  Claim C3, as amended. detect never fails with a MalformedCascadeError: no length is
  checked. On a cascade array that ends inside a stage, after the stage threshold and a
  positive node count, evalStages_ reads past the end; the reads give \<open>undefined\<close>, the
  stage sum is NaN, the test \<open>stageSum < stageThreshold\<close> is false, and the result is that
  of the complete stages before it.
\<close>

theorem no_cascade_validation:
  "detect ii iis tii sobel width height initialScale scaleFactor stepSize edgesDensity data \<noteq>
     Some (Inl MalformedCascadeError) \<and>
   evalStages (encode_cascade mw mh stages @ [thr, Num (int (Suc k))]) ii iis tii i j width bw bh scale =
     Some (list_all (\<lambda>s. \<not> stage_rejects
        (evalStages_env (encode_cascade mw mh stages @ [thr, Num (int (Suc k))]) ii iis tii i j width bw bh scale) s)
        stages)"
proof
  show "detect ii iis tii sobel width height initialScale scaleFactor stepSize edgesDensity data \<noteq>
     Some (Inl MalformedCascadeError)"
    by (simp add: detect_def mergeRectangles_no_malformed split: option.splits)
  show "evalStages (encode_cascade mw mh stages @ [thr, Num (int (Suc k))]) ii iis tii i j width bw bh scale =
     Some (list_all (\<lambda>s. \<not> stage_rejects
        (evalStages_env (encode_cascade mw mh stages @ [thr, Num (int (Suc k))]) ii iis tii i j width bw bh scale) s)
        stages)"
    by (rule evalStages_truncated)
qed

lemma merge_single:
  "mergeRectangles [\<lparr>rect_x = 0, rect_y = 0, rect_width = 2, rect_height = 2, rect_total = 0\<rparr>] =
     Some (Inr [\<lparr>rect_x = 0, rect_y = 0, rect_width = 2, rect_height = 2, rect_total = 1\<rparr>])"
  by (simp add: merge_eval js_eval)

text \<open>
  The array \<open>[1, 1, 1000, 1]\<close> declares a stage with one node and ends there. detect
  returns a detection instead of failing.
\<close>

theorem malformed_cascade_counterexample:
  "detect zero_table zero_table zero_table [] 3 3 (Fin 1) (Fin 2) (Fin 1) (Fin 0)
     [Fin 1, Fin 1, Fin 1000, Fin 1] =
   Some (Inr [\<lparr>rect_x = 0, rect_y = 0, rect_width = 2, rect_height = 2, rect_total = 1\<rparr>])"
  by (simp add: detect_def scan_ex_truncated merge_single)

text \<open>
  Claim C7. For the same tables, cascade, scale parameters and step size, and edge
  densities \<open>d1 \<le> d2\<close>: when the scan with \<open>d1\<close> returns, the scan with \<open>d2\<close> returns, it
  visits the same windows in the same order, every window that is pruned with \<open>d1\<close> is
  pruned with \<open>d2\<close>, and so at most as many windows reach evalStages_.
\<close>

theorem pruning_monotone:
  assumes "js_le d1 d2"
    and "scan ii iis tii sobel width height initialScale scaleFactor stepSize d1 data = Some st1"
  shows "\<exists>st2. scan ii iis tii sobel width height initialScale scaleFactor stepSize d2 data = Some st2 \<and>
           evaluated st2 \<le> evaluated st1 \<and> run_le st1 st2"
  using scan_mono [OF assms] run_le_evaluated by blast

theorem pruning_monotone_witness:
  "\<exists>st2. scan zero_table zero_table zero_table zero_table 3 3 (Fin 1) (Fin 2) (Fin 1) (Fin (1 / 5))
            (encode_cascade (Fin 1) (Fin 1) [unit_stage 0]) = Some st2 \<and>
         evaluated st2 \<le> 1 \<and> evaluated st2 = 0"
  using pruning_monotone [of "Fin 0" "Fin (1 / 5)", OF _ scan_ex0]
  by (simp add: js_le_def js_lt_def evaluated_def scan_ex1)










lemma block_at_pos:
  assumes "1 \<le> s * m" and "s * m < 2147483648"
  shows "block_at (Fin s) (Fin m) = \<lfloor>s * m\<rfloor> \<and> 0 < block_at (Fin s) (Fin m)"
proof -
  from assms have nz: "s * m \<noteq> 0" by auto
  from assms have fl: "1 \<le> \<lfloor>s * m\<rfloor>" "\<lfloor>s * m\<rfloor> < 2147483648" by (simp_all add: floor_less_iff)
  have "block_at (Fin s) (Fin m) = wrap32 (trunc (s * m))"
    using nz by (simp add: block_at_def js_mul_Fin fin_of_simps)
  also have "\<dots> = \<lfloor>s * m\<rfloor>" using assms fl by (simp add: trunc_def wrap32_def)
  finally show ?thesis using fl by simp
qed

lemma rect_area_pos: "0 < rect_width r \<Longrightarrow> 0 < rect_height r \<Longrightarrow> \<not> is_zero (rect_area r)"
  by (simp add: rect_area_def Num_def js_mul_Fin fin_of_simps is_zero_def)

text \<open>
  Claim C5, as amended. When \<open>initialScale\<close>, \<open>scaleFactor\<close> and the minimum width and
  height of the cascade are each at least 1, and the products \<open>initialScale * scaleFactor\<close>,
  \<open>width * scaleFactor\<close> and \<open>height * scaleFactor\<close> times the minimum width and height
  stay below \<open>2^30\<close>, every window that the scan visits and every raw rectangle that it
  collects has strictly positive width and height, and no collected rectangle has area
  zero. The proof uses of the products only that multiplication is monotone on numbers
  that are not negative and that \<open>1 * 1 = 1\<close>, which hold for rounded products as well;
  the bound \<open>2^30\<close> leaves room below \<open>2^31\<close> for their rounding.
\<close>

theorem raw_rects_positive:
  assumes sf: "scaleFactor = Fin f" "1 \<le> f"
    and s0: "initialScale = Fin s0" "1 \<le> s0"
    and mw: "f64_get data 0 = Fin mw" "1 \<le> mw"
    and mh: "f64_get data 1 = Fin mh" "1 \<le> mh"
    and w0: "s0 * f * mw < 1073741824" and h0: "s0 * f * mh < 1073741824"
    and fw: "real_of_int width * f * mw < 1073741824"
    and fh: "real_of_int height * f * mh < 1073741824"
    and run: "scan ii iis tii sobel width height initialScale scaleFactor stepSize edgesDensity data = Some st"
  shows "list_all (\<lambda>v. 0 < v_blockWidth v \<and> 0 < v_blockHeight v) (st_visits st) \<and>
         list_all (\<lambda>r. 0 < rect_width r \<and> 0 < rect_height r \<and> \<not> is_zero (rect_area r)) (st_rects st)"
proof -
  let ?d = "detect_env_of ii iis tii sobel width height scaleFactor stepSize edgesDensity data"
  define Inv where "Inv s bw bh \<longleftrightarrow>
      (\<exists>sv. s = Fin sv \<and> 1 \<le> sv \<and> sv * mw < 2147483648 \<and> sv * mh < 2147483648 \<and>
            bw = block_at s (Fin mw) \<and> bh = block_at s (Fin mh))" for s bw bh
  let ?Pv = "\<lambda>v. 0 < v_blockWidth v \<and> 0 < v_blockHeight v"
  note mh' = mh(1) [unfolded One_nat_def]
  have ge: "1 \<le> a * b" if "1 \<le> a" "1 \<le> b" for a b :: real
  proof -
    have "1 * 1 \<le> a * b" using that by (intro mult_mono) simp_all
    then show ?thesis by simp
  qed
  from run have sr: "scale_run ?d (js_mul initialScale scaleFactor)
     (block_at (js_mul initialScale scaleFactor) (f64_get data 0))
     (block_at (js_mul initialScale scaleFactor) (f64_get data 1))
     \<lparr>st_rects = [], st_visits = []\<rparr> st" by (simp add: scan_run)
  from ge [OF s0(2) sf(2)] have p0: "1 \<le> s0 * f" .
  then have nz0: "s0 * f \<noteq> 0" by auto
  have init: "Inv (js_mul initialScale scaleFactor)
     (block_at (js_mul initialScale scaleFactor) (f64_get data 0))
     (block_at (js_mul initialScale scaleFactor) (f64_get data 1))"
    unfolding Inv_def using nz0 p0 w0 h0
    by (intro exI [of _ "s0 * f"]) (simp add: s0 sf mw mh mh' js_mul_Fin fin_of_simps)
  have step: "Inv (js_mul s (det_scaleFactor ?d)) (block_at (js_mul s (det_scaleFactor ?d)) (det_minWidth ?d))
        (block_at (js_mul s (det_scaleFactor ?d)) (det_minHeight ?d))"
    if i: "Inv s bw bh" and fit: "bw < det_width ?d \<and> bh < det_height ?d" for s bw bh
  proof -
    from i obtain sv where s: "s = Fin sv" and b: "1 \<le> sv" "sv * mw < 2147483648" "sv * mh < 2147483648"
      and bw: "bw = block_at s (Fin mw)" and bh: "bh = block_at s (Fin mh)"
      unfolding Inv_def by blast
    from b(1) have sv0: "0 \<le> sv" by simp
    from sf(2) have f0: "0 \<le> f" by simp
    from mw(2) have mw0: "0 \<le> mw" by simp
    from mh(2) have mh0: "0 \<le> mh" by simp
    from ge [OF b(1) sf(2)] have p: "1 \<le> sv * f" .
    then have nz: "sv * f \<noteq> 0" by auto
    from block_at_pos [OF ge [OF b(1) mw(2)] b(2)] bw s fit have "\<lfloor>sv * mw\<rfloor> < width" by simp
    then have lw: "sv * mw < real_of_int width" by (simp add: floor_less_iff)
    have "sv * 1 \<le> sv * mw" using mw(2) sv0 by (rule mult_left_mono)
    with lw have sw: "sv \<le> real_of_int width" by simp
    from block_at_pos [OF ge [OF b(1) mh(2)] b(3)] bh s fit have "\<lfloor>sv * mh\<rfloor> < height" by simp
    then have lh: "sv * mh < real_of_int height" by (simp add: floor_less_iff)
    have "sv * 1 \<le> sv * mh" using mh(2) sv0 by (rule mult_left_mono)
    with lh have sh: "sv \<le> real_of_int height" by simp
    have "sv * f \<le> real_of_int width * f" using sw f0 by (rule mult_right_mono)
    then have "sv * f * mw \<le> real_of_int width * f * mw" using mw0 by (rule mult_right_mono)
    with fw have uw: "sv * f * mw < 2147483648" by simp
    have "sv * f \<le> real_of_int height * f" using sh f0 by (rule mult_right_mono)
    then have "sv * f * mh \<le> real_of_int height * f * mh" using mh0 by (rule mult_right_mono)
    with fh have uh: "sv * f * mh < 2147483648" by simp
    show ?thesis
      unfolding Inv_def using nz p uw uh
      by (intro exI [of _ "sv * f"]) (simp add: s sf mw mh mh' js_mul_Fin fin_of_simps)
  qed
  have vw: "?Pv v" if i: "Inv s bw bh" and v: "visit_window ?d s bw bh i j = Some v" for s bw bh i j v
  proof -
    from i obtain sv where s: "s = Fin sv" and b: "1 \<le> sv" "sv * mw < 2147483648" "sv * mh < 2147483648"
      and bw: "bw = block_at s (Fin mw)" and bh: "bh = block_at s (Fin mh)"
      unfolding Inv_def by blast
    from visit_window_fields [OF v] block_at_pos [OF ge [OF b(1) mw(2)] b(2)]
      block_at_pos [OF ge [OF b(1) mh(2)] b(3)] bw bh s ge [OF b(1) mw(2)] ge [OF b(1) mh(2)]
    show ?thesis by simp
  qed
  have e: "list_all ?Pv (st_visits \<lparr>st_rects = [], st_visits = []\<rparr>)" by simp
  have vis: "list_all ?Pv (st_visits st)"
  proof (rule scale_run_visits [of Inv ?d ?Pv, OF _ _ sr init e])
    fix s bw bh
    assume "Inv s bw bh" and "bw < det_width ?d \<and> bh < det_height ?d"
    then show "Inv (js_mul s (det_scaleFactor ?d)) (block_at (js_mul s (det_scaleFactor ?d)) (det_minWidth ?d))
        (block_at (js_mul s (det_scaleFactor ?d)) (det_minHeight ?d))" by (rule step)
  next
    fix s bw bh i j v
    assume "Inv s bw bh" and "visit_window ?d s bw bh i j = Some v"
    then show "?Pv v" by (rule vw)
  qed
  have "coherent \<lparr>st_rects = [], st_visits = []\<rparr>" by (simp add: coherent_def)
  from scale_run_coherent [OF sr this]
  have "st_rects st = map rect_of_visit (filter (\<lambda>v. v_accepted v = Some True) (st_visits st))"
    by (simp add: coherent_def)
  with vis show ?thesis by (simp add: list_all_iff rect_of_visit_def rect_area_pos)
qed

theorem raw_rects_positive_witness:
  "list_all (\<lambda>r. 0 < rect_width r \<and> 0 < rect_height r \<and> \<not> is_zero (rect_area r))
     (st_rects \<lparr>st_rects = [\<lparr>rect_x = 0, rect_y = 0, rect_width = 2, rect_height = 2, rect_total = 0\<rparr>],
                st_visits = [Visit 0 0 2 2 None (Some True)]\<rparr>)"
  using raw_rects_positive [of "Fin 2" 2 "Fin 1" 1 "encode_cascade (Fin 1) (Fin 1) [unit_stage 0]" 1 1 3 3,
      OF _ _ _ _ _ _ _ _ _ _ _ _ scan_ex0]
  by simp

text \<open>
  Without the lower bound the first block can have size 0, which fits every image with
  positive width and height: with \<open>initialScale = 1/4\<close>, \<open>scaleFactor = 3\<close> and
  \<open>stepSize = 4\<close> on a 3 by 3 image the first scale is 0.75, the block is 0 by 0, the
  window at \<open>(0, 0)\<close> reaches evalStages_ and is collected as a raw rectangle of area 0.
\<close>

theorem zero_area_counterexample:
  "scan zero_table zero_table zero_table zero_table 3 3 (Fin (1 / 4)) (Fin 3) (Fin 4) (Fin 0)
     (encode_cascade (Fin 1) (Fin 1) [unit_stage 0]) =
   Some \<lparr>st_rects = [\<lparr>rect_x = 0, rect_y = 0, rect_width = 0, rect_height = 0, rect_total = 0\<rparr>,
                     \<lparr>rect_x = 0, rect_y = 0, rect_width = 2, rect_height = 2, rect_total = 0\<rparr>],
         st_visits = [Visit 0 0 0 0 None (Some True), Visit 0 0 2 2 None (Some True)]\<rparr> \<and>
   rect_area \<lparr>rect_x = 0, rect_y = 0, rect_width = 0, rect_height = 0, rect_total = 0\<rparr> = Fin 0"
  by (simp add: scan_ex_small rect_area_def Num_def js_mul_Fin fin_of_simps)

text \<open>
  Claim C4, as amended. The scale starts at \<open>initialScale * scaleFactor\<close> and is multiplied
  by \<open>scaleFactor\<close> after each pass. When the blocks of the first \<open>K\<close> scales fit the image
  with a positive step and the block of the next scale does not fit, the scan returns, the
  windows it visits are those of the grids of these \<open>K\<close> scales in order (rows
  \<open>0, step, ...\<close> below \<open>height - blockHeight\<close>, columns \<open>0, step, ...\<close> below
  \<open>width - blockWidth\<close>), the raw rectangles are the accepted ones, and detect returns the
  result of mergeRectangles_ on them. The block sizes and the step are \<open>(x) | 0\<close>, the
  conversion to a signed 32-bit integer; this is \<open>floor(x)\<close> for \<open>0 \<le> x < 2^31\<close>.
\<close>

theorem scan_windows:
  assumes "\<forall>k<K. fits (detect_env_of ii iis tii sobel width height scaleFactor stepSize edgesDensity data)
                    (scale_at initialScale scaleFactor k) \<and>
                 0 < step_at (scale_at initialScale scaleFactor k) stepSize"
    and "\<not> fits (detect_env_of ii iis tii sobel width height scaleFactor stepSize edgesDensity data)
             (scale_at initialScale scaleFactor K)"
    and "those (concat (map (\<lambda>k. scale_windows
              (detect_env_of ii iis tii sobel width height scaleFactor stepSize edgesDensity data)
              (scale_at initialScale scaleFactor k)) [0..<K])) = Some vs"
  shows "scan ii iis tii sobel width height initialScale scaleFactor stepSize edgesDensity data =
           Some \<lparr>st_rects = map rect_of_visit (filter (\<lambda>v. v_accepted v = Some True) vs), st_visits = vs\<rparr> \<and>
         (0 \<le> width * height \<longrightarrow>
            detect ii iis tii sobel width height initialScale scaleFactor stepSize edgesDensity data =
              mergeRectangles (map rect_of_visit (filter (\<lambda>v. v_accepted v = Some True) vs))) \<and>
         (0 \<le> val (js_mul sc m) \<and> val (js_mul sc m) < 2147483648 \<longrightarrow> block_at sc m = claimed_block_at sc m) \<and>
         (0 \<le> val (js_add (js_mul sc m) (Fin (1 / 2))) \<and> val (js_add (js_mul sc m) (Fin (1 / 2))) < 2147483648 \<longrightarrow>
            step_at sc m = claimed_step_at sc m)"
  using scan_grid [OF assms]
  by (simp add: detect_def block_at_def claimed_block_at_def step_at_def claimed_step_at_def to_int32_floor)

theorem scan_windows_witness:
  "scan zero_table zero_table zero_table zero_table 3 3 (Fin 1) (Fin 2) (Fin 1) (Fin 0)
     (encode_cascade (Fin 1) (Fin 1) [unit_stage 0]) =
   Some \<lparr>st_rects = [\<lparr>rect_x = 0, rect_y = 0, rect_width = 2, rect_height = 2, rect_total = 0\<rparr>],
         st_visits = [Visit 0 0 2 2 None (Some True)]\<rparr> \<and>
   detect zero_table zero_table zero_table zero_table 3 3 (Fin 1) (Fin 2) (Fin 1) (Fin 0)
     (encode_cascade (Fin 1) (Fin 1) [unit_stage 0]) =
   Some (Inr [\<lparr>rect_x = 0, rect_y = 0, rect_width = 2, rect_height = 2, rect_total = 1\<rparr>])"
  using scan_windows [of 1 zero_table zero_table zero_table zero_table 3 3 "Fin 2" "Fin 1" "Fin 0"
      "encode_cascade (Fin 1) (Fin 1) [unit_stage 0]" "Fin 1" "[Visit 0 0 2 2 None (Some True)]" "Fin 2" "Fin 1"]
  by (simp add: scan_eval visit_unit merge_single)

text \<open>
  Outside that range the two differ: with \<open>initialScale = 2^32 + 1\<close> and
  \<open>scaleFactor = 2\<close> the product \<open>scale * minWidth\<close> is \<open>2^33 + 2\<close>, whose floor does not
  fit a 3 by 3 image, while \<open>| 0\<close> gives the block size 2 and a window is scanned.
\<close>

theorem scan_floor_counterexample:
  "scan zero_table zero_table zero_table zero_table 3 3 (Fin 4294967297) (Fin 2) (Fin 1) (Fin 0)
     (encode_cascade (Fin 1) (Fin 1) [unit_stage 0]) =
   Some \<lparr>st_rects = [\<lparr>rect_x = 0, rect_y = 0, rect_width = 2, rect_height = 2, rect_total = 0\<rparr>],
         st_visits = [Visit 0 0 2 2 None (Some True)]\<rparr> \<and>
   block_at (scale_at (Fin 4294967297) (Fin 2) 0) (Fin 1) = 2 \<and>
   claimed_block_at (scale_at (Fin 4294967297) (Fin 2) 0) (Fin 1) = 8589934594"
  by (simp add: scan_ex_large block_at_def claimed_block_at_def floor_of_def fin_eval)

end
